theory Spec2Isabelle
  imports Main "HOL-Library.AList" "HOL-Library.Word"
begin

section \<open>The shielded cache of \<^verbatim>\<open>cache.go\<close>\<close>

text \<open>
  The development follows \<^verbatim>\<open>cache.go\<close>. Conventions of the embedding:
  \<^item> A \<^verbatim>\<open>time.Time\<close> is an integer count of nanoseconds on one time line,
    \<^verbatim>\<open>t.Add(d)\<close> is \<open>t + d\<close> and \<^verbatim>\<open>t.Before(u)\<close> is \<open>t < u\<close>.
    A \<^verbatim>\<open>time.Duration\<close> is an integer count of nanoseconds; the only
    arithmetic the package does with one is \<^verbatim>\<open>Time.Add\<close>.
  \<^item> Every call of \<^verbatim>\<open>time.Now()\<close> is an input of the model: the reading the
    clock gave at that call.
  \<^item> A Go map is an association list with the operations of \<open>AList\<close>; the order of
    the list is the order in which \<^verbatim>\<open>range\<close> visits the map, which Go leaves
    unspecified, so every statement below holds for every order.
  \<^item> A \<^verbatim>\<open>*sync.Mutex\<close> is an address (a natural number); the state holds the
    set of addresses whose mutex is currently locked and the number of mutexes
    allocated so far, \<^verbatim>\<open>new(sync.Mutex)\<close> returning the next address.
  \<^item> The critical sections under \<^verbatim>\<open>objectsMu\<close> and \<^verbatim>\<open>shieldsMu\<close> contain no
    call and no other lock; each of them is one atomic state change and the two
    locks themselves are not part of the state.
  \<^item> The caller-supplied \<^verbatim>\<open>fetchFunc\<close> is a closure over the caller's variables:
    a function from the caller's environment to its two results and the new
    environment. It returns, and it does not call back into the cache.
  \<^item> \<^verbatim>\<open>Fetch\<close> is modelled twice: as one function, the call run from its first
    line to its return with no other goroutine in between (\<open>Fetch\<close>), and as the
    steps a goroutine takes between its accesses to what the goroutines share
    (\<open>callStep\<close>), which a scheduler interleaves with the steps of other calls and
    of the worker (\<open>run\<close>). Lemma \<open>Fetch_by_steps\<close> relates the two.
\<close>

subsection \<open>Data\<close>

type_synonym time = int
type_synonym duration = int

text \<open>\<^verbatim>\<open>time.Second\<close>, in nanoseconds, and \<^verbatim>\<open>const shieldExpiry = time.Second * 5\<close>.\<close>

definition Second :: duration where
  "Second = 1000000000"

definition shieldExpiry :: duration where
  "shieldExpiry = Second * 5"

text \<open>
  Modelled from the spec: the declaration of \<^verbatim>\<open>ErrWorkerNotRunning\<close> is not in
  \<^verbatim>\<open>cache.go\<close>; the spec (section 7) names it \<^verbatim>\<open>WorkerNotRunning\<close>, a fixed
  error value of the package. Every other Go \<^verbatim>\<open>error\<close> value is represented by its
  message, as \<^verbatim>\<open>fmt.Errorf\<close> builds it.
\<close>

datatype error = ErrWorkerNotRunning | Errorf string

record shieldEntry =
  lastAccessed :: time
  mu :: nat

record 'a CacheEntry =
  Expires :: time
  Data :: 'a

record 'a ShieldedCache =
  objects :: "(string \<times> 'a CacheEntry) list"
  shields :: "(string \<times> shieldEntry) list"
  gcInterval :: duration
  workerRunning :: "32 word"

text \<open>
  The process the cache lives in: the fields of the struct, the mutexes of the
  heap, and the environment \<open>env\<close> of the caller that the closures passed to
  \<^verbatim>\<open>Fetch\<close> read and write.
\<close>

record ('a, 'w) process = "'a ShieldedCache" +
  locked :: "nat set"
  allocated :: nat
  env :: 'w

type_synonym ('a, 'w) producer = "'w \<Rightarrow> ('a \<times> error option) \<times> 'w"

type_synonym 'a fetched = "'a CacheEntry option \<times> bool \<times> error option"

subsection \<open>Construction\<close>

text \<open>
  \<^verbatim>\<open>NewShieldedCache\<close>: two empty maps, the given interval, the worker flag at
  its zero value. The process around it starts with no mutex allocated.
\<close>

definition NewShieldedCache :: "duration \<Rightarrow> 'w \<Rightarrow> ('a, 'w) process" where
  "NewShieldedCache gcInterval' w =
     \<lparr>objects = [], shields = [], gcInterval = gcInterval', workerRunning = 0,
      locked = {}, allocated = 0, env = w\<rparr>"

subsection \<open>Fetch\<close>

text \<open>
  Lines 58 to 67, the section under \<^verbatim>\<open>shieldsMu\<close>: look the key's shield up and
  create it, with a new mutex and the clock reading \<open>now\<close>, when there is none.
\<close>

definition getShield ::
  "string \<Rightarrow> time \<Rightarrow> ('a, 'w) process \<Rightarrow> shieldEntry \<times> ('a, 'w) process" where
  "getShield key now s =
     (case map_of (shields s) key of
        Some shield \<Rightarrow> (shield, s)
      | None \<Rightarrow>
          (let shield = \<lparr>lastAccessed = now, mu = allocated s\<rparr>
           in (shield, s\<lparr>shields := AList.update key shield (shields s),
                          allocated := Suc (allocated s)\<rparr>)))"

text \<open>
  \<^verbatim>\<open>mu.Lock()\<close> returns once the mutex is free, and holds it from then on; on a
  held mutex it does not return (\<open>None\<close>) until another goroutine unlocks it.
  \<^verbatim>\<open>mu.Unlock()\<close> frees the mutex.
\<close>

definition Lock :: "nat \<Rightarrow> ('a, 'w) process \<Rightarrow> ('a, 'w) process option" where
  "Lock m s = (if m \<in> locked s then None else Some (s\<lparr>locked := insert m (locked s)\<rparr>))"

definition Unlock :: "nat \<Rightarrow> ('a, 'w) process \<Rightarrow> ('a, 'w) process" where
  "Unlock m s = s\<lparr>locked := locked s - {m}\<rparr>"

text \<open>
  \<^verbatim>\<open>Fetch\<close>, run by one goroutine with no other goroutine in between. \<open>now1\<close> is
  the clock reading of line 62 and \<open>now2\<close> that of line 86. The result is \<open>None\<close>
  when the call blocks on the shield's mutex; otherwise it is the three results of
  the Go function (a nil pointer and a nil error are \<open>None\<close>) and the new state.
  The deferred \<^verbatim>\<open>shield.mu.Unlock()\<close> runs on each of the three returns after the
  lock is taken.
\<close>

definition Fetch ::
  "string \<Rightarrow> duration \<Rightarrow> ('a, 'w) producer \<Rightarrow> time \<Rightarrow> time \<Rightarrow> ('a, 'w) process
     \<Rightarrow> ('a fetched \<times> ('a, 'w) process) option" where
  "Fetch key ttl fetchFunc now1 now2 s =
     (if workerRunning s = 0 then Some ((None, False, Some ErrWorkerNotRunning), s)
      else
        (case getShield key now1 s of (shield, s1) \<Rightarrow>
           (case Lock (mu shield) s1 of
              None \<Rightarrow> None
            | Some s2 \<Rightarrow>
                (case map_of (objects s2) key of
                   Some res \<Rightarrow> Some ((Some res, True, None), Unlock (mu shield) s2)
                 | None \<Rightarrow>
                     (case fetchFunc (env s2) of ((ret, err), w) \<Rightarrow>
                        (case err of
                           Some e \<Rightarrow>
                             Some ((None, False, Some e), Unlock (mu shield) (s2\<lparr>env := w\<rparr>))
                         | None \<Rightarrow>
                             (let res = \<lparr>Expires = now2 + ttl, Data = ret\<rparr>;
                                  s3 = s2\<lparr>env := w\<rparr>;
                                  s4 = s3\<lparr>objects := AList.update key res (objects s3)\<rparr>
                              in Some ((Some res, False, None), Unlock (mu shield) s4))))))))"

subsection \<open>The worker\<close>

text \<open>
  \<^verbatim>\<open>StartWorker\<close>: refuse when the flag is 1, otherwise set it and start the
  goroutine of \<^verbatim>\<open>runWorker\<close>, whose steps are \<open>runWorker\<close> below.
\<close>

definition StartWorker :: "('a, 'w) process \<Rightarrow> error option \<times> ('a, 'w) process" where
  "StartWorker s =
     (if workerRunning s = 1 then (Some (Errorf ''worker already running''), s)
      else (None, s\<lparr>workerRunning := 1\<rparr>))"

text \<open>
  The two loops of the cancellation branch (lines 116 to 118 and 121 to 123):
  \<^verbatim>\<open>range\<close> over the map, deleting the key visited. The first argument is what is
  left of the iteration, the second the map being emptied. A loop deletes no entry but
  the one it visits, so it visits the entries the map had when the loop began.
\<close>

fun flushLoop :: "string list \<Rightarrow> (string \<times> 'v) list \<Rightarrow> (string \<times> 'v) list" where
  "flushLoop [] m = m"
| "flushLoop (key # rest) m = flushLoop rest (AList.delete key m)"

text \<open>
  The loop of lines 129 to 134. Each iteration reads the clock; \<open>now key\<close> is the
  reading of the iteration that visits \<open>key\<close>.
\<close>

fun gcObjectsLoop ::
  "(string \<Rightarrow> time) \<Rightarrow> (string \<times> 'a CacheEntry) list \<Rightarrow> (string \<times> 'a CacheEntry) list
     \<Rightarrow> (string \<times> 'a CacheEntry) list" where
  "gcObjectsLoop now [] m = m"
| "gcObjectsLoop now ((key, item) # rest) m =
     gcObjectsLoop now rest (if Expires item < now key then AList.delete key m else m)"

text \<open>The loop of lines 137 to 141, likewise.\<close>

fun gcShieldsLoop ::
  "(string \<Rightarrow> time) \<Rightarrow> (string \<times> shieldEntry) list \<Rightarrow> (string \<times> shieldEntry) list
     \<Rightarrow> (string \<times> shieldEntry) list" where
  "gcShieldsLoop now [] m = m"
| "gcShieldsLoop now ((key, shield) # rest) m =
     gcShieldsLoop now rest
       (if lastAccessed shield + shieldExpiry < now key then AList.delete key m else m)"

text \<open>The branch \<^verbatim>\<open>case <-ctx.Done()\<close>, up to its \<^verbatim>\<open>return\<close>.\<close>

definition flush :: "('a, 'w) process \<Rightarrow> ('a, 'w) process" where
  "flush s =
     (let s1 = s\<lparr>objects := flushLoop (map fst (objects s)) (objects s)\<rparr>;
          s2 = s1\<lparr>shields := flushLoop (map fst (shields s1)) (shields s1)\<rparr>
      in s2\<lparr>workerRunning := 0\<rparr>)"

text \<open>
  The branch \<^verbatim>\<open>case <-time.After(s.gcInterval)\<close>; \<open>nowO\<close> and \<open>nowS\<close> are the clock
  readings of the two loops.
\<close>

definition sweep ::
  "(string \<Rightarrow> time) \<Rightarrow> (string \<Rightarrow> time) \<Rightarrow> ('a, 'w) process \<Rightarrow> ('a, 'w) process" where
  "sweep nowO nowS s =
     (let s1 = s\<lparr>objects := gcObjectsLoop nowO (objects s) (objects s)\<rparr>
      in s1\<lparr>shields := gcShieldsLoop nowS (shields s1) (shields s1)\<rparr>)"

text \<open>
  What wakes the \<^verbatim>\<open>select\<close> of \<^verbatim>\<open>runWorker\<close>: the context is done, or the timer
  fired (carrying the clock readings of the sweep that follows).
\<close>

datatype wakeup = Done | After "string \<Rightarrow> time" "string \<Rightarrow> time"

text \<open>
  \<^verbatim>\<open>runWorker\<close> on the wakeups it receives, in order. The boolean says whether the
  function has returned; on a list without \<open>Done\<close> the worker is still in its loop,
  waiting in the \<^verbatim>\<open>select\<close>.
\<close>

fun runWorker :: "wakeup list \<Rightarrow> ('a, 'w) process \<Rightarrow> ('a, 'w) process \<times> bool" where
  "runWorker [] s = (s, False)"
| "runWorker (Done # rest) s = (flush s, True)"
| "runWorker (After nowO nowS # rest) s = runWorker rest (sweep nowO nowS s)"

subsection \<open>Usage and DeleteObject\<close>

text \<open>\<^verbatim>\<open>len\<close> of a map is the length of the list, whose keys are distinct.\<close>

definition Usage :: "('a, 'w) process \<Rightarrow> nat \<times> nat" where
  "Usage s = (length (objects s), length (shields s))"

definition DeleteObject :: "string \<Rightarrow> ('a, 'w) process \<Rightarrow> ('a, 'w) process" where
  "DeleteObject key s = s\<lparr>objects := AList.delete key (objects s)\<rparr>"

subsection \<open>Calls of Fetch run by several goroutines\<close>

text \<open>
  Where a goroutine running \<^verbatim>\<open>Fetch\<close> stands, with the locals it has by then:
  \<^item> \<open>AtCheck\<close>: line 52, before the load of \<^verbatim>\<open>workerRunning\<close>;
  \<^item> \<open>AtShields\<close>: line 58, before the section under \<^verbatim>\<open>shieldsMu\<close>;
  \<^item> \<open>AtLock shield\<close>: line 69, before \<^verbatim>\<open>shield.mu.Lock()\<close>;
  \<^item> \<open>AtObjects shield\<close>: line 72, holding the shield's mutex, before the read of the
    Object Store;
  \<^item> \<open>InCall shield\<close>: line 80, \<^verbatim>\<open>fetchFunc\<close> has been called and has not returned;
  \<^item> \<open>AtStore shield res\<close>: line 90, the entry \<open>res\<close> is built and not yet stored;
  \<^item> \<open>Returned r\<close>: the call has returned \<open>r\<close>, the deferred unlock done.
\<close>

datatype 'a point =
    AtCheck
  | AtShields
  | AtLock shieldEntry
  | AtObjects shieldEntry
  | InCall shieldEntry
  | AtStore shieldEntry "'a CacheEntry"
  | Returned "'a fetched"

record ('a, 'w) call =
  callKey :: string
  callTtl :: duration
  callFetchFunc :: "('a, 'w) producer"
  callAt :: "'a point"

text \<open>
  One step of a goroutine in \<^verbatim>\<open>Fetch\<close>: the code up to its next access to what the
  goroutines share. \<open>now\<close> is the clock reading of the step, for the two steps that
  read the clock (lines 62 and 86). The result is \<open>None\<close> when the goroutine cannot
  move: it waits for a held mutex, or it has returned. A \<^verbatim>\<open>return\<close> and the deferred
  unlock are one step with the access before them. The call of \<^verbatim>\<open>fetchFunc\<close> begins
  with the step that finds the key absent and ends with the step from \<open>InCall\<close>, which
  applies the closure to the caller's environment as it is then.
\<close>

definition callStep ::
  "time \<Rightarrow> ('a, 'w) call \<Rightarrow> ('a, 'w) process \<Rightarrow> (('a, 'w) call \<times> ('a, 'w) process) option" where
  "callStep now c s =
     (case callAt c of
        AtCheck \<Rightarrow>
          (if workerRunning s = 0
           then Some (c\<lparr>callAt := Returned (None, False, Some ErrWorkerNotRunning)\<rparr>, s)
           else Some (c\<lparr>callAt := AtShields\<rparr>, s))
      | AtShields \<Rightarrow>
          (case getShield (callKey c) now s of
             (shield, s') \<Rightarrow> Some (c\<lparr>callAt := AtLock shield\<rparr>, s'))
      | AtLock shield \<Rightarrow>
          (case Lock (mu shield) s of
             None \<Rightarrow> None
           | Some s' \<Rightarrow> Some (c\<lparr>callAt := AtObjects shield\<rparr>, s'))
      | AtObjects shield \<Rightarrow>
          (case map_of (objects s) (callKey c) of
             Some res \<Rightarrow>
               Some (c\<lparr>callAt := Returned (Some res, True, None)\<rparr>, Unlock (mu shield) s)
           | None \<Rightarrow> Some (c\<lparr>callAt := InCall shield\<rparr>, s))
      | InCall shield \<Rightarrow>
          (case callFetchFunc c (env s) of
             ((ret, err), w) \<Rightarrow>
               (case err of
                  Some e \<Rightarrow>
                    Some (c\<lparr>callAt := Returned (None, False, Some e)\<rparr>,
                          Unlock (mu shield) (s\<lparr>env := w\<rparr>))
                | None \<Rightarrow>
                    Some (c\<lparr>callAt := AtStore shield \<lparr>Expires = now + callTtl c, Data = ret\<rparr>\<rparr>,
                          s\<lparr>env := w\<rparr>)))
      | AtStore shield res \<Rightarrow>
          Some (c\<lparr>callAt := Returned (Some res, False, None)\<rparr>,
                Unlock (mu shield) (s\<lparr>objects := AList.update (callKey c) res (objects s)\<rparr>))
      | Returned r \<Rightarrow> None)"

text \<open>
  What happens in the process, one event at a time: a goroutine calls \<^verbatim>\<open>Fetch\<close>; the
  goroutine of the \<open>i\<close>-th call takes a step; \<^verbatim>\<open>StartWorker\<close> sets the flag; the worker
  runs one of its four loops (each a section under one lock) or stores 0 in the
  flag; some goroutine calls \<^verbatim>\<open>DeleteObject\<close>. The order of the events is the
  scheduler's; the statements below hold for every order.
\<close>

datatype ('a, 'w) event =
    Go string duration "('a, 'w) producer"
  | Step nat time
  | Start
  | GcObjects "string \<Rightarrow> time"
  | GcShields "string \<Rightarrow> time"
  | FlushObjects
  | FlushShields
  | StoreStopped
  | Delete string

type_synonym ('a, 'w) system = "('a, 'w) process \<times> ('a, 'w) call list"

text \<open>A step of a goroutine that cannot move, or that does not exist, changes nothing.\<close>

fun exec :: "('a, 'w) event \<Rightarrow> ('a, 'w) system \<Rightarrow> ('a, 'w) system" where
  "exec (Go key ttl fetchFunc) (s, cs) =
     (s, cs @ [\<lparr>callKey = key, callTtl = ttl, callFetchFunc = fetchFunc, callAt = AtCheck\<rparr>])"
| "exec (Step i now) (s, cs) =
     (if i < length cs
      then (case callStep now (cs ! i) s of
              None \<Rightarrow> (s, cs)
            | Some (c, s') \<Rightarrow> (s', cs[i := c]))
      else (s, cs))"
| "exec Start (s, cs) = (snd (StartWorker s), cs)"
| "exec (GcObjects now) (s, cs) = (s\<lparr>objects := gcObjectsLoop now (objects s) (objects s)\<rparr>, cs)"
| "exec (GcShields now) (s, cs) = (s\<lparr>shields := gcShieldsLoop now (shields s) (shields s)\<rparr>, cs)"
| "exec FlushObjects (s, cs) = (s\<lparr>objects := flushLoop (map fst (objects s)) (objects s)\<rparr>, cs)"
| "exec FlushShields (s, cs) = (s\<lparr>shields := flushLoop (map fst (shields s)) (shields s)\<rparr>, cs)"
| "exec StoreStopped (s, cs) = (s\<lparr>workerRunning := 0\<rparr>, cs)"
| "exec (Delete key) (s, cs) = (DeleteObject key s, cs)"

fun run :: "('a, 'w) event list \<Rightarrow> ('a, 'w) system \<Rightarrow> ('a, 'w) system" where
  "run [] sys = sys"
| "run (e # es) sys = run es (exec e sys)"

text \<open>The shield a goroutine has taken from the registry, and the one whose mutex it holds.\<close>

fun shieldOf :: "'a point \<Rightarrow> shieldEntry option" where
  "shieldOf (AtLock shield) = Some shield"
| "shieldOf (AtObjects shield) = Some shield"
| "shieldOf (InCall shield) = Some shield"
| "shieldOf (AtStore shield res) = Some shield"
| "shieldOf p = None"


fun inCall :: "'a point \<Rightarrow> bool" where
  "inCall (InCall shield) = True"
| "inCall p = False"

fun returned :: "'a point \<Rightarrow> bool" where
  "returned (Returned r) = True"
| "returned p = False"




text \<open>
  The event takes from the registry a shield that a call for \<open>key\<close> has taken from it:
  a sweep that finds it stale, or the flush. \<open>shieldsKept\<close>: no event of the schedule
  does.
\<close>

fun removesShieldOf :: "string \<Rightarrow> ('a, 'w) event \<Rightarrow> ('a, 'w) system \<Rightarrow> bool" where
  "removesShieldOf key (GcShields now) (s, cs) =
     (\<exists>c \<in> set cs. callKey c = key
        \<and> (case shieldOf (callAt c) of
               None \<Rightarrow> False
             | Some shield \<Rightarrow> lastAccessed shield + shieldExpiry < now key))"
| "removesShieldOf key FlushShields (s, cs) =
     (\<exists>c \<in> set cs. callKey c = key \<and> shieldOf (callAt c) \<noteq> None)"
| "removesShieldOf key e (s, cs) = False"

fun shieldsKept :: "string \<Rightarrow> ('a, 'w) event list \<Rightarrow> ('a, 'w) system \<Rightarrow> bool" where
  "shieldsKept key [] sys = True"
| "shieldsKept key (e # es) sys = (\<not> removesShieldOf key e sys \<and> shieldsKept key es (exec e sys))"



subsection \<open>Notions used in the statements\<close>

text \<open>
  The mutex \<^verbatim>\<open>Fetch\<close> will lock for \<open>key\<close> is free: that of the key's shield, or
  the one a new shield will get.
\<close>

definition shieldFree :: "string \<Rightarrow> ('a, 'w) process \<Rightarrow> bool" where
  "shieldFree key s =
     (case map_of (shields s) key of
        Some shield \<Rightarrow> mu shield \<notin> locked s
      | None \<Rightarrow> allocated s \<notin> locked s)"

text \<open>A Go map has one entry for a key.\<close>

definition wellFormed :: "('a, 'w) process \<Rightarrow> bool" where
  "wellFormed s = (distinct (map fst (objects s)) \<and> distinct (map fst (shields s)))"

text \<open>
  Counting invocations, the way the tests of the package do (their closures count in
  a captured variable): \<open>recording fetchFunc\<close> behaves as \<open>fetchFunc\<close> and also
  appends the pair it returns to a log kept in the caller's environment. The log
  grows by one entry at each invocation and in no other way.
\<close>

definition recording ::
  "('a, 'w) producer \<Rightarrow> ('a, ('a \<times> error option) list \<times> 'w) producer" where
  "recording fetchFunc = (\<lambda>(log, w). case fetchFunc w of (r, w') \<Rightarrow> (r, (log @ [r], w')))"

definition invocations ::
  "('a, ('a \<times> error option) list \<times> 'w) process \<Rightarrow> ('a \<times> error option) list" where
  "invocations s = fst (env s)"

text \<open>Every stored entry carries a value some invocation returned with a nil error.\<close>

definition allProduced :: "('a, ('a \<times> error option) list \<times> 'w) process \<Rightarrow> bool" where
  "allProduced s = (\<forall>(key, item) \<in> set (objects s). (Data item, None) \<in> set (invocations s))"

subsection \<open>The setting of the package's tests\<close>

text \<open>
  From \<^verbatim>\<open>TestShieldedCacheTTL\<close>: a cache of \<^verbatim>\<open>uint64\<close> with a 100 ms interval and
  a started worker, and the closure that counts in \<^verbatim>\<open>u\<close> and fails from the third
  call on.
\<close>

definition Millisecond :: duration where
  "Millisecond = 1000000"

definition testFetchFunc :: "(64 word, 64 word) producer" where
  "testFetchFunc u =
     (let u' = u + 1
      in if u' > 2 then ((0, Some (Errorf ''error'')), u') else ((u', None), u'))"

definition testState ::
  "64 word \<Rightarrow> (64 word, (64 word \<times> error option) list \<times> 64 word) process" where
  "testState u = snd (StartWorker (NewShieldedCache (Millisecond * 100) ([], u)))"

subsection \<open>Stages of several calls for one key\<close>

text \<open>
  The invocations of the producer for a key, counted on the execution itself: the event
  is the step in which a goroutine's call of \<^verbatim>\<open>fetchFunc\<close> (line 80) for the key takes
  place, and \<open>invoked\<close> is the number of these steps in a schedule.
\<close>

fun invokes :: "string \<Rightarrow> ('a, 'w) event \<Rightarrow> ('a, 'w) system \<Rightarrow> bool" where
  "invokes key (Step i now) (s, cs) =
     (i < length cs \<and> callKey (cs ! i) = key \<and> inCall (callAt (cs ! i)))"
| "invokes key e (s, cs) = False"

fun invoked :: "string \<Rightarrow> ('a, 'w) event list \<Rightarrow> ('a, 'w) system \<Rightarrow> nat" where
  "invoked key [] sys = 0"
| "invoked key (e # es) sys = (if invokes key e sys then 1 else 0) + invoked key es (exec e sys)"









text \<open>
  What disturbs the calls for \<open>key\<close>: a call for the key finds the worker not running
  at its check of line 52; the key's entry is removed from the Object Store, by a sweep
  that finds it expired, by the flush or by \<^verbatim>\<open>DeleteObject\<close>; a shield that a call for
  the key has taken is removed from the registry. Everything else may come between the
  steps of these calls: calls of \<^verbatim>\<open>Fetch\<close> for any key, the steps of the calls for other
  keys, \<^verbatim>\<open>StartWorker\<close>, the sweeps and the cancellation branch of the worker as long
  as they remove nothing of the above, and \<^verbatim>\<open>DeleteObject\<close> for other keys.
\<close>

fun disturbs :: "string \<Rightarrow> ('a, 'w) event \<Rightarrow> ('a, 'w) system \<Rightarrow> bool" where
  "disturbs key (Go k ttl fetchFunc) (s, cs) = False"
| "disturbs key (Step i now) (s, cs) =
     (i < length cs \<and> callKey (cs ! i) = key \<and> callAt (cs ! i) = AtCheck \<and> workerRunning s = 0)"
| "disturbs key Start (s, cs) = False"
| "disturbs key (GcObjects now) (s, cs) =
     (case map_of (objects s) key of None \<Rightarrow> False | Some res \<Rightarrow> Expires res < now key)"
| "disturbs key (GcShields now) (s, cs) = removesShieldOf key (GcShields now) (s, cs)"
| "disturbs key FlushObjects (s, cs) = (map_of (objects s) key \<noteq> None)"
| "disturbs key FlushShields (s, cs) = removesShieldOf key FlushShields (s, cs)"
| "disturbs key StoreStopped (s, cs) = False"
| "disturbs key (Delete k) (s, cs) = (k = key \<and> map_of (objects s) key \<noteq> None)"

fun undisturbed :: "string \<Rightarrow> ('a, 'w) event list \<Rightarrow> ('a, 'w) system \<Rightarrow> bool" where
  "undisturbed key [] sys = True"
| "undisturbed key (e # es) sys = (\<not> disturbs key e sys \<and> undisturbed key es (exec e sys))"

subsection \<open>Scheduling the calls in turn\<close>






subsection \<open>The cancellation among calls\<close>

text \<open>
  No call is past the check of line 52 and still running: every call is before the
  check or has returned.
\<close>

definition idle :: "('a, 'w) call list \<Rightarrow> bool" where
  "idle cs = (\<forall>c \<in> set cs. callAt c = AtCheck \<or> returned (callAt c))"

text \<open>
  The event is a call's load of the flag at line 52; \<open>noCheck\<close>: no event of the
  schedule is one.
\<close>

fun atCheck :: "('a, 'w) event \<Rightarrow> ('a, 'w) system \<Rightarrow> bool" where
  "atCheck (Step i now) (s, cs) = (i < length cs \<and> callAt (cs ! i) = AtCheck)"
| "atCheck e (s, cs) = False"

fun noCheck :: "('a, 'w) event list \<Rightarrow> ('a, 'w) system \<Rightarrow> bool" where
  "noCheck [] sys = True"
| "noCheck (e # es) sys = (\<not> atCheck e sys \<and> noCheck es (exec e sys))"

text \<open>The event is a call of \<^verbatim>\<open>StartWorker\<close>.\<close>

fun isStart :: "('a, 'w) event \<Rightarrow> bool" where
  "isStart Start = True"
| "isStart e = False"

text \<open>
  The worker has left and no call is past the check: both maps are empty, the flag is
  0, and every call is before the check or has returned.
\<close>

fun stopped :: "('a, 'w) system \<Rightarrow> bool" where
  "stopped (s, cs) = (objects s = [] \<and> shields s = [] \<and> workerRunning s = 0 \<and> idle cs)"

subsection \<open>Schedules of one and two callers\<close>

text \<open>
  Two goroutines call \<^verbatim>\<open>Fetch\<close> for the key \<^verbatim>\<open>test\<close> with the closure of the test. In
  each schedule the first caller creates the shield at clock reading 10 and takes its
  mutex, and the second caller finds the mutex held (its steps in between change
  nothing).
\<close>

definition testCall :: "(64 word, (64 word \<times> error option) list \<times> 64 word) call" where
  "testCall = \<lparr>callKey = ''test'', callTtl = Millisecond * 50,
               callFetchFunc = recording testFetchFunc, callAt = AtCheck\<rparr>"

text \<open>Both run to their return, the second after the first.\<close>

definition twoCallers :: "(64 word, (64 word \<times> error option) list \<times> 64 word) event list" where
  "twoCallers =
     [Step 0 0, Step 1 0, Step 0 10, Step 1 11, Step 0 0, Step 1 0, Step 0 0, Step 1 0,
      Step 0 20, Step 1 0, Step 0 0, Step 1 0, Step 1 0, Step 1 30, Step 1 0]"

text \<open>
  The goroutines start, the worker sweeps the registry at one second, and the
  schedule stops with the first caller in its producer.
\<close>

definition sweptCallers :: "(64 word, (64 word \<times> error option) list \<times> 64 word) event list" where
  "sweptCallers =
     [Go ''test'' (Millisecond * 50) (recording testFetchFunc),
      Go ''test'' (Millisecond * 50) (recording testFetchFunc),
      Step 0 0, Step 1 0, Step 0 10, Step 1 11, GcShields (\<lambda>key. Second),
      Step 0 0, Step 1 0, Step 0 0, Step 1 0]"

text \<open>
  The first caller is in its producer for more than five seconds; the worker sweeps
  the registry at six seconds; a second caller arrives after that.
\<close>

definition staleCallers :: "(64 word, (64 word \<times> error option) list \<times> 64 word) event list" where
  "staleCallers =
     [Go ''test'' (Millisecond * 50) (recording testFetchFunc),
      Step 0 0, Step 0 10, Step 0 0, Step 0 0, GcShields (\<lambda>key. Second * 6),
      Go ''test'' (Millisecond * 50) (recording testFetchFunc),
      Step 1 0, Step 1 6000000001, Step 1 0, Step 1 0]"

text \<open>
  One caller is in its producer when the context is done: the worker runs its
  cancellation branch, and the producer returns after that.
\<close>

definition lateCaller :: "(64 word, (64 word \<times> error option) list \<times> 64 word) event list" where
  "lateCaller =
     [Go ''test'' (Millisecond * 50) (recording testFetchFunc),
      Step 0 0, Step 0 10, Step 0 0, Step 0 0,
      FlushObjects, FlushShields, StoreStopped,
      Step 0 20, Step 0 0]"

text \<open>
  A caller begins after the worker has emptied both maps on cancellation and passes the
  check of line 52 before the worker stores 0 in the flag.
\<close>

definition lateStart :: "(64 word, (64 word \<times> error option) list \<times> 64 word) event list" where
  "lateStart =
     [FlushObjects, FlushShields,
      Go ''test'' (Millisecond * 50) (recording testFetchFunc), Step 0 0,
      StoreStopped,
      Step 0 10, Step 0 0, Step 0 0, Step 0 20, Step 0 0]"

text \<open>
  The worker has left on cancellation; \<^verbatim>\<open>StartWorker\<close> is called again, and a caller
  comes after that.
\<close>

definition restarted :: "(64 word, (64 word \<times> error option) list \<times> 64 word) event list" where
  "restarted =
     [FlushObjects, FlushShields, StoreStopped, Start,
      Go ''test'' (Millisecond * 50) (recording testFetchFunc),
      Step 0 0, Step 0 10, Step 0 0, Step 0 0, Step 0 20, Step 0 0]"

subsection \<open>A schedule of three callers among other events\<close>

text \<open>
  From \<^verbatim>\<open>TestShieldedCacheShielding\<close>: the closure that counts in \<^verbatim>\<open>n\<close> and never fails,
  and a call of \<^verbatim>\<open>Fetch\<close> for the key \<^verbatim>\<open>testkey\<close> with it.
\<close>

definition shieldingFetch :: "(64 word, 64 word) producer" where
  "shieldingFetch n = ((n + 1, None), n + 1)"

definition shieldingCall :: "(64 word, (64 word \<times> error option) list \<times> 64 word) call" where
  "shieldingCall = \<lparr>callKey = ''testkey'', callTtl = Millisecond * 50,
                    callFetchFunc = recording shieldingFetch, callAt = AtCheck\<rparr>"

text \<open>
  Two goroutines have called \<^verbatim>\<open>Fetch\<close> for \<^verbatim>\<open>testkey\<close>; a third calls it for the same
  key and a fourth for another key while they run; the worker sweeps once, and
  \<^verbatim>\<open>DeleteObject\<close> and \<^verbatim>\<open>StartWorker\<close> are called. The first caller creates the shield,
  takes its mutex and calls the producer; the other two find the mutex held until the
  first has stored the entry, and then take it one after the other.
\<close>

definition threeCallers :: "(64 word, (64 word \<times> error option) list \<times> 64 word) event list" where
  "threeCallers =
     [Step 0 0, Step 1 0, Step 0 10, Step 1 11,
      Go ''testkey'' (Millisecond * 50) (recording shieldingFetch),
      Go ''other'' (Millisecond * 50) (recording testFetchFunc),
      Step 2 0, Step 2 12, Step 0 0, Step 1 0, Step 2 0, Step 3 0, Step 0 0, Step 3 13,
      GcObjects (\<lambda>key. 15), GcShields (\<lambda>key. 16), Delete ''other'', Start,
      Step 3 0, Step 3 0, Step 0 20, Step 3 21, Step 1 0, Step 0 0, Step 3 0,
      Step 2 0, Step 1 0, Step 2 0, Step 1 0, Step 1 0]"

text \<open>The third and the fourth goroutine begin while the first is past the check.\<close>

definition arrivals :: "(64 word, (64 word \<times> error option) list \<times> 64 word) event list" where
  "arrivals =
     [Step 0 0, Go ''testkey'' (Millisecond * 50) (recording shieldingFetch),
      Go ''other'' (Millisecond * 50) (recording testFetchFunc), Step 1 0]"

subsection \<open>Schedules of callers that are disturbed\<close>

text \<open>
  Two goroutines call \<^verbatim>\<open>Fetch\<close> for \<^verbatim>\<open>testkey\<close>. The first runs to its return and
  stores the entry, the second having passed the check of line 52; the events
  \<open>between\<close> take place; the second runs to its return.
\<close>

definition disturbedBy ::
  "(64 word, (64 word \<times> error option) list \<times> 64 word) event list
     \<Rightarrow> (64 word, (64 word \<times> error option) list \<times> 64 word) event list" where
  "disturbedBy between =
     [Step 0 0, Step 1 0, Step 0 10, Step 0 0, Step 0 0, Step 0 20, Step 0 0]
     @ between @ [Step 1 11, Step 1 0, Step 1 0, Step 1 30, Step 1 0]"

text \<open>
  A third goroutine calls \<^verbatim>\<open>Fetch\<close> for \<^verbatim>\<open>testkey\<close> with the closure of
  \<^verbatim>\<open>TestShieldedCacheTTL\<close> and runs to its return before the first of the two.
\<close>

definition furtherCaller :: "(64 word, (64 word \<times> error option) list \<times> 64 word) event list" where
  "furtherCaller =
     [Go ''testkey'' (Millisecond * 50) (recording testFetchFunc),
      Step 2 0, Step 2 10, Step 2 0, Step 2 0, Step 2 20,
      Step 0 0, Step 0 11, Step 0 0, Step 0 0, Step 0 30, Step 0 0,
      Step 1 0, Step 1 12, Step 1 0, Step 1 0]"

section \<open>Properties of a call run alone\<close>

subsection \<open>The four ways through Fetch\<close>

lemma getShield_frame:
  "objects (snd (getShield key now s)) = objects s"
  "env (snd (getShield key now s)) = env s"
  "locked (snd (getShield key now s)) = locked s"
  "workerRunning (snd (getShield key now s)) = workerRunning s"
  "gcInterval (snd (getShield key now s)) = gcInterval s"
  by (simp_all add: getShield_def Let_def split: option.splits)

lemma getShield_free:
  "shieldFree key s \<longleftrightarrow> mu (fst (getShield key now s)) \<notin> locked s"
  by (simp add: shieldFree_def getShield_def Let_def split: option.splits)


lemma shieldFree_after:
  "shieldFree key s \<Longrightarrow> shieldFree key (snd (getShield key now s))"
  by (simp add: shieldFree_def getShield_def Let_def AList.update_conv' split: option.splits)

lemma shieldFree_env [simp]: "shieldFree key (s\<lparr>env := w\<rparr>) = shieldFree key s"
  by (simp add: shieldFree_def split: option.splits)

lemma shieldFree_objects [simp]: "shieldFree key (s\<lparr>objects := m\<rparr>) = shieldFree key s"
  by (simp add: shieldFree_def split: option.splits)

lemma nothing_locked_shieldFree: "locked s = {} \<Longrightarrow> shieldFree key s"
  by (simp add: shieldFree_def split: option.splits)

lemma update_absent: "map_of al k = None \<Longrightarrow> AList.update k v al = al @ [(k, v)]"
  by (induction al) (auto split: if_splits)

lemma Fetch_hit:
  assumes "workerRunning s \<noteq> 0" "shieldFree key s" "map_of (objects s) key = Some res"
  shows "Fetch key ttl fetchFunc now1 now2 s =
           Some ((Some res, True, None), snd (getShield key now1 s))"
proof -
  obtain shield s1 where g: "getShield key now1 s = (shield, s1)"
    by (cases "getShield key now1 s")
  have f: "mu shield \<notin> locked s1" "objects s1 = objects s" "locked s1 = locked s"
    using assms(2) getShield_free[of key s now1] getShield_frame[of key now1 s] g by simp_all
  show ?thesis using assms f g
    by (simp add: Fetch_def Lock_def Unlock_def)
qed

lemma Fetch_error:
  assumes "workerRunning s \<noteq> 0" "shieldFree key s" "map_of (objects s) key = None"
    and "fetchFunc (env s) = ((ret, Some e), w)"
  shows "Fetch key ttl fetchFunc now1 now2 s =
           Some ((None, False, Some e), (snd (getShield key now1 s))\<lparr>env := w\<rparr>)"
proof -
  obtain shield s1 where g: "getShield key now1 s = (shield, s1)"
    by (cases "getShield key now1 s")
  have f: "mu shield \<notin> locked s1" "objects s1 = objects s" "locked s1 = locked s"
    "env s1 = env s"
    using assms(2) getShield_free[of key s now1] getShield_frame[of key now1 s] g by simp_all
  show ?thesis using assms f g
    by (simp add: Fetch_def Lock_def Unlock_def)
qed

lemma Fetch_miss:
  assumes "workerRunning s \<noteq> 0" "shieldFree key s" "map_of (objects s) key = None"
    and "fetchFunc (env s) = ((ret, None), w)"
  shows "Fetch key ttl fetchFunc now1 now2 s =
           Some ((Some \<lparr>Expires = now2 + ttl, Data = ret\<rparr>, False, None),
                 (snd (getShield key now1 s))
                   \<lparr>env := w,
                    objects := AList.update key \<lparr>Expires = now2 + ttl, Data = ret\<rparr> (objects s)\<rparr>)"
proof -
  obtain shield s1 where g: "getShield key now1 s = (shield, s1)"
    by (cases "getShield key now1 s")
  have f: "mu shield \<notin> locked s1" "objects s1 = objects s" "locked s1 = locked s"
    "env s1 = env s"
    using assms(2) getShield_free[of key s now1] getShield_frame[of key now1 s] g by simp_all
  show ?thesis using assms f g
    by (simp add: Fetch_def Lock_def Unlock_def Let_def)
qed

lemma Fetch_blocked:
  assumes "workerRunning s \<noteq> 0" "\<not> shieldFree key s"
  shows "Fetch key ttl fetchFunc now1 now2 s = None"
proof -
  obtain shield s1 where g: "getShield key now1 s = (shield, s1)"
    by (cases "getShield key now1 s")
  have f: "mu shield \<in> locked s1"
    using assms(2) getShield_free[of key s now1] getShield_frame[of key now1 s] g by simp_all
  show ?thesis using assms f g
    by (simp add: Fetch_def Lock_def)
qed

text \<open>A call that returns took one of four ways, and its state change is that way's.\<close>

lemma Fetch_returned:
  assumes "Fetch key ttl fetchFunc now1 now2 s = Some (r, s')"
  shows "(workerRunning s = 0 \<and> r = (None, False, Some ErrWorkerNotRunning) \<and> s' = s)
       \<or> (\<exists>res. workerRunning s \<noteq> 0 \<and> shieldFree key s \<and> map_of (objects s) key = Some res
              \<and> r = (Some res, True, None) \<and> s' = snd (getShield key now1 s))
       \<or> (\<exists>ret e w. workerRunning s \<noteq> 0 \<and> shieldFree key s \<and> map_of (objects s) key = None
              \<and> fetchFunc (env s) = ((ret, Some e), w)
              \<and> r = (None, False, Some e) \<and> s' = (snd (getShield key now1 s))\<lparr>env := w\<rparr>)
       \<or> (\<exists>ret w. workerRunning s \<noteq> 0 \<and> shieldFree key s \<and> map_of (objects s) key = None
              \<and> fetchFunc (env s) = ((ret, None), w)
              \<and> r = (Some \<lparr>Expires = now2 + ttl, Data = ret\<rparr>, False, None)
              \<and> s' = (snd (getShield key now1 s))
                   \<lparr>env := w,
                    objects := AList.update key \<lparr>Expires = now2 + ttl, Data = ret\<rparr> (objects s)\<rparr>)"
proof (cases "workerRunning s = 0")
  case True
  with assms show ?thesis by (simp add: Fetch_def)
next
  case running: False
  show ?thesis
  proof (cases "shieldFree key s")
    case False
    with running assms show ?thesis by (simp add: Fetch_blocked)
  next
    case free: True
    show ?thesis
    proof (cases "map_of (objects s) key")
      case (Some res)
      from Fetch_hit[OF running free Some, of ttl fetchFunc now1 now2] assms running free Some
      show ?thesis by auto
    next
      case None
      obtain ret err w where f: "fetchFunc (env s) = ((ret, err), w)"
        by (metis prod.exhaust)
      show ?thesis
      proof (cases err)
        case no_error: None
        from Fetch_miss[where fetchFunc = fetchFunc, OF running free None, of ret w ttl now1 now2]
          f no_error assms running free None
        show ?thesis by auto
      next
        case (Some e)
        from Fetch_error[where fetchFunc = fetchFunc, OF running free None, of ret e w ttl now1 now2]
          f Some assms running free None
        show ?thesis by auto
      qed
    qed
  qed
qed

text \<open>With no mutex held, a call returns.\<close>

lemma Fetch_returns:
  assumes "shieldFree key s"
  shows "\<exists>r s'. Fetch key ttl fetchFunc now1 now2 s = Some (r, s')"
proof (cases "workerRunning s = 0")
  case True
  then show ?thesis by (auto simp: Fetch_def)
next
  case running: False
  show ?thesis
  proof (cases "map_of (objects s) key")
    case (Some res)
    from Fetch_hit[OF running assms Some] show ?thesis by blast
  next
    case None
    obtain ret err w where f: "fetchFunc (env s) = ((ret, err), w)"
      by (metis prod.exhaust)
    show ?thesis
    proof (cases err)
      case no_error: None
      from Fetch_miss[where fetchFunc = fetchFunc, OF running assms None] f no_error
      show ?thesis by blast
    next
      case (Some e)
      from Fetch_error[where fetchFunc = fetchFunc, OF running assms None] f Some
      show ?thesis by blast
    qed
  qed
qed

lemma Fetch_keeps_locked:
  assumes "Fetch key ttl fetchFunc now1 now2 s = Some (r, s')"
  shows "locked s' = locked s"
  using Fetch_returned[OF assms] by (auto simp: getShield_frame)

lemma recording_apply:
  "fetchFunc w = (r, w') \<Longrightarrow> recording fetchFunc (log, w) = (r, (log @ [r], w'))"
  by (simp add: recording_def)

lemma Fetch_invocations:
  assumes "Fetch key ttl (recording fetchFunc) now1 now2 s = Some (r, s')"
  shows "invocations s' = invocations s \<or> (\<exists>x. invocations s' = invocations s @ [x])"
proof -
  obtain log w where e: "env s = (log, w)" by (cases "env s")
  obtain x w' where f: "fetchFunc w = (x, w')" by (cases "fetchFunc w")
  have "recording fetchFunc (env s) = (x, (log @ [x], w'))"
    using e f by (simp add: recording_apply)
  with Fetch_returned[OF assms] e show ?thesis
    by (auto simp: invocations_def getShield_frame)
qed

subsection \<open>The loops of the worker\<close>

lemma flushLoop_filter: "flushLoop ks m = filter (\<lambda>(k, v). k \<notin> set ks) m"
proof (induction ks arbitrary: m)
  case Nil
  then show ?case by simp
next
  case (Cons key rest)
  have "filter (\<lambda>(k, v). k \<notin> set rest) (AList.delete key m) =
        filter (\<lambda>(k, v). k \<notin> set (key # rest)) m"
    by (auto simp: AList.delete_eq intro: filter_cong)
  with Cons show ?case by simp
qed

lemma flushLoop_all: "flushLoop (map fst m) m = []"
  by (force simp: flushLoop_filter filter_empty_conv)

lemma gcObjectsLoop_filter:
  "gcObjectsLoop now xs m =
     filter (\<lambda>(k, v). \<not> (\<exists>item. (k, item) \<in> set xs \<and> Expires item < now k)) m"
proof (induction xs arbitrary: m)
  case Nil
  then show ?case by simp
next
  case (Cons x rest)
  obtain key item where x: "x = (key, item)" by (cases x)
  show ?case
  proof (cases "Expires item < now key")
    case True
    have "filter (\<lambda>(k, v). \<not> (\<exists>item. (k, item) \<in> set rest \<and> Expires item < now k))
            (AList.delete key m) =
          filter (\<lambda>(k, v). \<not> (\<exists>item. (k, item) \<in> set (x # rest) \<and> Expires item < now k)) m"
      using True x by (auto simp: AList.delete_eq intro: filter_cong)
    with Cons True x show ?thesis by simp
  next
    case False
    have "filter (\<lambda>(k, v). \<not> (\<exists>item. (k, item) \<in> set rest \<and> Expires item < now k)) m =
          filter (\<lambda>(k, v). \<not> (\<exists>item. (k, item) \<in> set (x # rest) \<and> Expires item < now k)) m"
      using False x by (auto intro: filter_cong)
    with Cons False x show ?thesis by simp
  qed
qed

lemma gcShieldsLoop_filter:
  "gcShieldsLoop now xs m =
     filter (\<lambda>(k, v). \<not> (\<exists>sh. (k, sh) \<in> set xs \<and> lastAccessed sh + shieldExpiry < now k)) m"
proof (induction xs arbitrary: m)
  case Nil
  then show ?case by simp
next
  case (Cons x rest)
  obtain key shield where x: "x = (key, shield)" by (cases x)
  show ?case
  proof (cases "lastAccessed shield + shieldExpiry < now key")
    case True
    have "filter (\<lambda>(k, v). \<not> (\<exists>sh. (k, sh) \<in> set rest \<and> lastAccessed sh + shieldExpiry < now k))
            (AList.delete key m) =
          filter (\<lambda>(k, v). \<not> (\<exists>sh. (k, sh) \<in> set (x # rest)
                                   \<and> lastAccessed sh + shieldExpiry < now k)) m"
      using True x by (auto simp: AList.delete_eq intro: filter_cong)
    with Cons True x show ?thesis by simp
  next
    case False
    have "filter (\<lambda>(k, v). \<not> (\<exists>sh. (k, sh) \<in> set rest \<and> lastAccessed sh + shieldExpiry < now k)) m =
          filter (\<lambda>(k, v). \<not> (\<exists>sh. (k, sh) \<in> set (x # rest)
                                   \<and> lastAccessed sh + shieldExpiry < now k)) m"
      using False x by (auto intro: filter_cong)
    with Cons False x show ?thesis by simp
  qed
qed




lemma flush_fields:
  "objects (flush s) = []" "shields (flush s) = []" "workerRunning (flush s) = 0"
  "locked (flush s) = locked s" "allocated (flush s) = allocated s" "env (flush s) = env s"
  "gcInterval (flush s) = gcInterval s"
  by (simp_all add: flush_def Let_def flushLoop_all)

lemma sweep_fields:
  "workerRunning (sweep nowO nowS s) = workerRunning s"
  "locked (sweep nowO nowS s) = locked s" "allocated (sweep nowO nowS s) = allocated s"
  "env (sweep nowO nowS s) = env s" "gcInterval (sweep nowO nowS s) = gcInterval s"
  by (simp_all add: sweep_def Let_def)

lemma sweep_objects:
  "objects (sweep nowO nowS s) = gcObjectsLoop nowO (objects s) (objects s)"
  by (simp add: sweep_def Let_def)

lemma sweep_shields:
  "shields (sweep nowO nowS s) = gcShieldsLoop nowS (shields s) (shields s)"
  by (simp add: sweep_def Let_def)

lemma runWorker_Done:
  "Done \<in> set evs \<Longrightarrow>
     snd (runWorker evs s) \<and> objects (fst (runWorker evs s)) = []
     \<and> shields (fst (runWorker evs s)) = [] \<and> workerRunning (fst (runWorker evs s)) = 0"
proof (induction evs s rule: runWorker.induct)
  case (1 s)
  then show ?case by simp
next
  case (2 rest s)
  then show ?case by (simp add: flush_fields)
next
  case (3 nowO nowS rest s)
  then show ?case by simp
qed

lemma runWorker_waiting:
  "Done \<notin> set evs \<Longrightarrow>
     \<not> snd (runWorker evs s) \<and> workerRunning (fst (runWorker evs s)) = workerRunning s"
proof (induction evs s rule: runWorker.induct)
  case (1 s)
  then show ?case by simp
next
  case (2 rest s)
  then show ?case by simp
next
  case (3 nowO nowS rest s)
  then show ?case by (simp add: sweep_fields)
qed

subsection \<open>Invariants of the state\<close>

lemma distinct_filter_fst: "distinct (map fst m) \<Longrightarrow> distinct (map fst (filter P m))"
  by (induction m) auto

lemma wellFormed_New: "wellFormed (NewShieldedCache gc w)"
  by (simp add: wellFormed_def NewShieldedCache_def)

lemma wellFormed_getShield: "wellFormed s \<Longrightarrow> wellFormed (snd (getShield key now s))"
  by (simp add: wellFormed_def getShield_def Let_def AList.distinct_update split: option.splits)

lemma Fetch_objects:
  assumes "Fetch key ttl fetchFunc now1 now2 s = Some (r, s')"
  shows "objects s' = objects s
       \<or> (\<exists>ret. fst (fetchFunc (env s)) = (ret, None) \<and> snd (fetchFunc (env s)) = env s'
              \<and> objects s' = AList.update key \<lparr>Expires = now2 + ttl, Data = ret\<rparr> (objects s))"
  using Fetch_returned[OF assms]
  by (elim disjE exE conjE) (simp_all add: getShield_frame)

lemma Fetch_shields:
  assumes "Fetch key ttl fetchFunc now1 now2 s = Some (r, s')"
  shows "shields s' = shields s \<or> shields s' = shields (snd (getShield key now1 s))"
  using Fetch_returned[OF assms]
  by (elim disjE exE conjE) simp_all

lemma wellFormed_Fetch:
  assumes "wellFormed s" and "Fetch key ttl fetchFunc now1 now2 s = Some (r, s')"
  shows "wellFormed s'"
proof -
  have "distinct (map fst (objects s'))"
    using Fetch_objects[OF assms(2)] assms(1)
    by (elim disjE exE conjE) (simp_all add: wellFormed_def AList.distinct_update)
  moreover have "distinct (map fst (shields s'))"
    using Fetch_shields[OF assms(2)] assms(1) wellFormed_getShield[OF assms(1), of key now1]
    by (elim disjE) (simp_all add: wellFormed_def)
  ultimately show ?thesis by (simp add: wellFormed_def)
qed

lemma wellFormed_worker:
  "wellFormed s \<Longrightarrow> wellFormed (sweep nowO nowS s)"
  "wellFormed (flush s)"
  "wellFormed s \<Longrightarrow> wellFormed (snd (StartWorker s))"
  "wellFormed s \<Longrightarrow> wellFormed (DeleteObject key s)"
  by (simp_all add: wellFormed_def sweep_objects sweep_shields gcObjectsLoop_filter
      gcShieldsLoop_filter distinct_filter_fst flush_fields StartWorker_def DeleteObject_def
      AList.distinct_delete)

lemma set_gcObjectsLoop: "set (gcObjectsLoop now xs m) \<subseteq> set m"
  by (auto simp: gcObjectsLoop_filter)

lemma set_update_subset: "set (AList.update k v m) \<subseteq> insert (k, v) (set m)"
  by (induction m) auto

lemma allProduced_iff:
  "allProduced s \<longleftrightarrow>
     (\<forall>k item. (k, item) \<in> set (objects s) \<longrightarrow> (Data item, None) \<in> set (invocations s))"
  by (auto simp: allProduced_def)

lemma Fetch_allProduced:
  assumes "allProduced s" and "Fetch key ttl (recording fetchFunc) now1 now2 s = Some (r, s')"
  shows "allProduced s'"
proof -
  have grows: "set (invocations s) \<subseteq> set (invocations s')"
    using Fetch_invocations[OF assms(2)] by (elim disjE exE) (simp_all add: subset_insertI)
  have old: "(Data item, None) \<in> set (invocations s')" if "(k, item) \<in> set (objects s)" for k item
  proof -
    from assms(1) that have "(Data item, None) \<in> set (invocations s)"
      by (simp add: allProduced_iff)
    with grows show ?thesis by (rule subsetD)
  qed
  from Fetch_objects[OF assms(2)] show ?thesis
  proof (elim disjE exE conjE)
    assume "objects s' = objects s"
    with old show ?thesis by (simp add: allProduced_iff)
  next
    fix ret
    assume ret: "fst (recording fetchFunc (env s)) = (ret, None)"
    let ?res = "\<lparr>Expires = now2 + ttl, Data = ret\<rparr>"
    assume env': "snd (recording fetchFunc (env s)) = env s'"
      and obj: "objects s' = AList.update key ?res (objects s)"
    obtain log w where e: "env s = (log, w)" by (cases "env s")
    obtain x w' where f: "fetchFunc w = (x, w')" by (cases "fetchFunc w")
    have rec: "recording fetchFunc (env s) = (x, (log @ [x], w'))"
      unfolding e using f by (rule recording_apply)
    have x: "x = (ret, None)" using ret unfolding rec by simp
    have "env s' = (log @ [x], w')" using env' unfolding rec by simp
    then have logged: "(ret, None) \<in> set (invocations s')"
      unfolding x by (simp add: invocations_def)
    show ?thesis
      unfolding allProduced_iff
    proof (intro allI impI)
      fix k item assume "(k, item) \<in> set (objects s')"
      then have "(k, item) \<in> insert (key, ?res) (set (objects s))"
        unfolding obj using set_update_subset[of key ?res "objects s"] by (rule subsetD[rotated])
      then have "(k, item) = (key, ?res) \<or> (k, item) \<in> set (objects s)" by simp
      then show "(Data item, None) \<in> set (invocations s')"
      proof
        assume "(k, item) = (key, ?res)"
        then have "Data item = ret" by simp
        with logged show ?thesis by simp
      next
        assume "(k, item) \<in> set (objects s)"
        then show ?thesis by (rule old)
      qed
    qed
  qed
qed

lemma testState_fields:
  "objects (testState u) = []" "shields (testState u) = []" "workerRunning (testState u) = 1"
  "locked (testState u) = {}" "allocated (testState u) = 0" "env (testState u) = ([], u)"
  "gcInterval (testState u) = 100000000"
  by (simp_all add: testState_def StartWorker_def NewShieldedCache_def Millisecond_def)

section \<open>Calls run by several goroutines\<close>

subsection \<open>The steps of a call\<close>



lemma exec_Step:
  "exec (Step i now) (s, cs) = (s', cs') \<Longrightarrow>
     (s' = s \<and> cs' = cs)
     \<or> (\<exists>c. i < length cs \<and> callStep now (cs ! i) s = Some (c, s') \<and> cs' = cs[i := c])"
  by (auto split: if_splits option.splits)

lemma run_append: "run (es @ es') sys = run es' (run es sys)"
  by (induction es arbitrary: sys) simp_all

subsection \<open>The mutexes and the registry\<close>




subsection \<open>The mutexes, whatever the worker removes\<close>









subsection \<open>The registry and the calls for one key\<close>










subsection \<open>Several calls for one key\<close>




















subsection \<open>Every call returns\<close>

text \<open>A call that cannot move has returned, or waits for a held mutex.\<close>

lemma callStep_None:
  "callStep now c s = None
     \<longleftrightarrow> returned (callAt c) \<or> (\<exists>sh. callAt c = AtLock sh \<and> mu sh \<in> locked s)"
  by (cases "callAt c") (auto simp: callStep_def Lock_def split: prod.splits option.splits)

































lemma invoked_append:
  "invoked key (es @ es') sys = invoked key es sys + invoked key es' (run es sys)"
  by (induction es arbitrary: sys) simp_all

subsection \<open>The calls for one key, from the first call to the last return\<close>




subsection \<open>A call run alone, step by step\<close>

text \<open>
  A call run alone takes at most six steps, and they do what \<open>Fetch\<close> does: the same
  results and the same state, or the wait at the lock.
\<close>

lemma Fetch_by_steps:
  "run [Step 0 t0, Step 0 now1, Step 0 t1, Step 0 t2, Step 0 now2, Step 0 t3]
       (s, [\<lparr>callKey = key, callTtl = ttl, callFetchFunc = fetchFunc, callAt = AtCheck\<rparr>]) =
     (case Fetch key ttl fetchFunc now1 now2 s of
        Some (r, s') \<Rightarrow>
          (s', [\<lparr>callKey = key, callTtl = ttl, callFetchFunc = fetchFunc, callAt = Returned r\<rparr>])
      | None \<Rightarrow>
          (snd (getShield key now1 s),
           [\<lparr>callKey = key, callTtl = ttl, callFetchFunc = fetchFunc,
             callAt = AtLock (fst (getShield key now1 s))\<rparr>]))"
proof (cases "workerRunning s = 0")
  case True
  then show ?thesis by (simp add: Fetch_def callStep_def)
next
  case running: False
  obtain shield s1 where g: "getShield key now1 s = (shield, s1)"
    by (cases "getShield key now1 s")
  show ?thesis
  proof (cases "mu shield \<in> locked s1")
    case True
    with running g show ?thesis by (simp add: Fetch_def callStep_def Lock_def)
  next
    case free: False
    show ?thesis
    proof (cases "map_of (objects s1) key")
      case (Some res)
      with running g free show ?thesis by (simp add: Fetch_def callStep_def Lock_def)
    next
      case None
      obtain ret err w where f: "fetchFunc (env s1) = ((ret, err), w)"
        by (metis prod.exhaust)
      show ?thesis
      proof (cases err)
        case no_error: None
        with running g free None f show ?thesis
          by (simp add: Fetch_def callStep_def Lock_def Unlock_def Let_def)
      next
        case (Some e)
        with running g free None f show ?thesis
          by (simp add: Fetch_def callStep_def Lock_def Unlock_def)
      qed
    qed
  qed
qed

subsection \<open>Schedules\<close>

lemmas schedule_defs =
  twoCallers_def sweptCallers_def staleCallers_def lateCaller_def lateStart_def restarted_def
  threeCallers_def arrivals_def disturbedBy_def furtherCaller_def testCall_def shieldingCall_def testState_def StartWorker_def NewShieldedCache_def
  callStep_def getShield_def Lock_def Unlock_def recording_def testFetchFunc_def
  shieldingFetch_def invocations_def Let_def Millisecond_def Second_def shieldExpiry_def

text \<open>
  The edge case of the stale shield: the sweep takes the first caller's shield from the
  registry while the caller is in its producer, the second caller gets a new shield
  with a new mutex, and both are in their producers at once.
\<close>

lemma stale_shield_overlap:
  "\<not> shieldsKept ''test'' staleCallers (testState 0, [])
   \<and> map callAt (snd (run staleCallers (testState 0, []))) =
       [InCall \<lparr>lastAccessed = 10, mu = 0\<rparr>, InCall \<lparr>lastAccessed = 6000000001, mu = 1\<rparr>]"
  by (simp add: schedule_defs)

text \<open>
  The two branches of the worker as events: each branch of \<open>runWorker\<close> is its loops
  one after the other.
\<close>

lemma worker_by_events:
  "run [GcObjects nowO, GcShields nowS] (s, cs) = (sweep nowO nowS s, cs)"
  "run [FlushObjects, FlushShields, StoreStopped] (s, cs) = (flush s, cs)"
  by (simp_all add: sweep_def flush_def Let_def)

text \<open>
  What disturbs the calls for a key does change the outcome. The key's entry removed
  between the return of the first caller and the read of the second, by a sweep that
  finds it expired, by \<^verbatim>\<open>DeleteObject\<close> or by the worker's cancellation branch: the
  second caller finds the key absent and the producer is invoked again. A call that
  finds the worker not running returns at the check. A shield in use removed: the
  schedule of the stale shield. And a call for the key whose producer fails: two
  invocations as well.
\<close>

lemma disturbed_callers:
  "undisturbed ''testkey'' (disturbedBy []) (testState 0, [shieldingCall, shieldingCall])
   \<and> invoked ''testkey'' (disturbedBy []) (testState 0, [shieldingCall, shieldingCall]) = 1"
  "\<not> undisturbed ''testkey'' (disturbedBy [GcObjects (\<lambda>key. Second)])
       (testState 0, [shieldingCall, shieldingCall])
   \<and> invoked ''testkey'' (disturbedBy [GcObjects (\<lambda>key. Second)])
       (testState 0, [shieldingCall, shieldingCall]) = 2"
  "\<not> undisturbed ''testkey'' (disturbedBy [Delete ''testkey''])
       (testState 0, [shieldingCall, shieldingCall])
   \<and> invoked ''testkey'' (disturbedBy [Delete ''testkey''])
       (testState 0, [shieldingCall, shieldingCall]) = 2"
  "\<not> undisturbed ''testkey'' (disturbedBy [FlushObjects, FlushShields, StoreStopped])
       (testState 0, [shieldingCall, shieldingCall])
   \<and> invoked ''testkey'' (disturbedBy [FlushObjects, FlushShields, StoreStopped])
       (testState 0, [shieldingCall, shieldingCall]) = 2"
  "\<not> undisturbed ''testkey'' [StoreStopped, Step 0 0] (testState 0, [shieldingCall])
   \<and> map callAt (snd (run [StoreStopped, Step 0 0] (testState 0, [shieldingCall]))) =
       [Returned (None, False, Some ErrWorkerNotRunning)]"
  "\<not> undisturbed ''test'' staleCallers (testState 0, [])"
  "undisturbed ''testkey'' furtherCaller (testState 2, [shieldingCall, shieldingCall])
   \<and> invoked ''testkey'' furtherCaller (testState 2, [shieldingCall, shieldingCall]) = 2
   \<and> map callAt (snd (run furtherCaller (testState 2, [shieldingCall, shieldingCall]))) =
       [Returned (Some \<lparr>Expires = 50000030, Data = 4\<rparr>, False, None),
        Returned (Some \<lparr>Expires = 50000030, Data = 4\<rparr>, True, None),
        Returned (None, False, Some (Errorf ''error''))]"
  by (simp_all add: schedule_defs DeleteObject_def)

text \<open>
  After \<^verbatim>\<open>StartWorker\<close> is called again the cache is in use again: a call of \<^verbatim>\<open>Fetch\<close>
  registers a shield and stores an entry.
\<close>

lemma store_after_restart:
  "workerRunning (fst (run restarted (testState 0, []))) = 1
   \<and> Usage (fst (run restarted (testState 0, []))) = (1, 1)"
  by (simp add: schedule_defs Usage_def)

subsection \<open>The cancellation among calls\<close>

text \<open>
  While no call is past the check and none passes it, nothing is stored: an empty map
  stays empty.
\<close>

lemma idle_exec:
  assumes idle: "idle cs" and e: "\<not> atCheck e (s, cs)"
    and ex: "exec e (s, cs) = (s', cs')"
  shows "idle cs' \<and> (objects s = [] \<longrightarrow> objects s' = []) \<and> (shields s = [] \<longrightarrow> shields s' = [])"
proof (cases e)
  case (Step i now)
  have "exec (Step i now) (s, cs) = (s, cs)"
  proof (cases "i < length cs")
    case True
    with idle have "callAt (cs ! i) = AtCheck \<or> returned (callAt (cs ! i))"
      by (simp add: idle_def)
    with e Step True have "returned (callAt (cs ! i))" by simp
    then have "callStep now (cs ! i) s = None" by (simp add: callStep_None)
    with True show ?thesis by simp
  qed simp
  with ex Step idle show ?thesis by simp
next
  case (Go key ttl f)
  with ex idle show ?thesis by (auto simp: idle_def)
qed (use idle ex in \<open>auto simp: DeleteObject_def StartWorker_def\<close>)

lemma idle_run:
  assumes "idle cs" and "noCheck evs (s, cs)" and "run evs (s, cs) = (s', cs')"
  shows "idle cs' \<and> (objects s = [] \<longrightarrow> objects s' = []) \<and> (shields s = [] \<longrightarrow> shields s' = [])"
  using assms
proof (induction evs arbitrary: s cs)
  case Nil
  then show ?case by simp
next
  case (Cons e evs)
  obtain s1 cs1 where ex: "exec e (s, cs) = (s1, cs1)" by (cases "exec e (s, cs)")
  from Cons.prems(2) ex have e: "\<not> atCheck e (s, cs)" and rest: "noCheck evs (s1, cs1)"
    by simp_all
  from idle_exec[OF Cons.prems(1) e ex]
  have 1: "idle cs1" "objects s = [] \<longrightarrow> objects s1 = []" "shields s = [] \<longrightarrow> shields s1 = []"
    by simp_all
  from Cons.prems(3) ex have "run evs (s1, cs1) = (s', cs')" by simp
  from Cons.IH[OF 1(1) rest this] 1 show ?case by simp
qed

lemma unchecked_append:
  "noCheck (es @ es') sys \<longleftrightarrow> noCheck es sys \<and> noCheck es' (run es sys)"
  by (induction es arbitrary: sys) simp_all

text \<open>
  Once the worker has left with no call past the check, a call of \<^verbatim>\<open>Fetch\<close> returns at
  the check and nothing is stored.
\<close>

lemma stopped_exec:
  assumes st: "stopped sys" and e: "\<not> isStart e"
  shows "stopped (exec e sys)"
proof -
  obtain s cs where sys: "sys = (s, cs)" by (cases sys)
  from st sys have o: "objects s = []" "shields s = []" "workerRunning s = 0"
    and calls: "\<And>c. c \<in> set cs \<Longrightarrow> callAt c = AtCheck \<or> returned (callAt c)"
    by (auto simp: idle_def)
  show ?thesis
  proof (cases e)
    case (Step i now)
    show ?thesis
    proof (cases "i < length cs \<and> callStep now (cs ! i) s \<noteq> None")
      case False
      then have "exec (Step i now) (s, cs) = (s, cs)" by (auto split: option.splits)
      with st sys Step show ?thesis by (simp del: stopped.simps exec.simps)
    next
      case True
      then obtain c s' where i: "i < length cs" and step: "callStep now (cs ! i) s = Some (c, s')"
        by auto
      from i calls[of "cs ! i"] have "callAt (cs ! i) = AtCheck \<or> returned (callAt (cs ! i))"
        by simp
      moreover from step have "\<not> returned (callAt (cs ! i))"
        using callStep_None[of now "cs ! i" s] by auto
      ultimately have "callAt (cs ! i) = AtCheck" by simp
      with step o(3) have c: "returned (callAt c)" and s': "s' = s"
        by (auto simp: callStep_def)
      have "callAt x = AtCheck \<or> returned (callAt x)" if "x \<in> set (cs[i := c])" for x
        using that c calls set_update_subset_insert[of cs i c] by auto
      with o s' have "stopped (s', cs[i := c])" by (simp add: idle_def)
      with i step Step sys show ?thesis by (simp del: stopped.simps)
    qed
  qed (use e o calls sys in \<open>auto simp: DeleteObject_def idle_def\<close>)
qed

lemma stopped_run:
  "stopped sys \<Longrightarrow> \<forall>e \<in> set evs. \<not> isStart e \<Longrightarrow> stopped (run evs sys)"
  by (induction evs arbitrary: sys) (simp_all add: stopped_exec)

text \<open>
  The cancellation branch among other events: no call was past the check when it began,
  none passed the check before the flag was stored, and \<^verbatim>\<open>StartWorker\<close> was not called
  after that.
\<close>

lemma flush_among_events:
  assumes idle: "idle cs"
    and quiet: "noCheck (FlushObjects # mid1 @ FlushShields # mid2) (s, cs)"
    and a: "\<forall>e \<in> set after. \<not> isStart e"
  shows "stopped (run (FlushObjects # mid1 @ FlushShields # mid2 @ StoreStopped # after) (s, cs))"
proof -
  let ?s1 = "s\<lparr>objects := flushLoop (map fst (objects s)) (objects s)\<rparr>"
  obtain s2 cs2 where r2: "run mid1 (?s1, cs) = (s2, cs2)" by (cases "run mid1 (?s1, cs)")
  let ?s3 = "s2\<lparr>shields := flushLoop (map fst (shields s2)) (shields s2)\<rparr>"
  obtain s4 cs4 where r4: "run mid2 (?s3, cs2) = (s4, cs4)" by (cases "run mid2 (?s3, cs2)")
  from quiet r2 have q1: "noCheck mid1 (?s1, cs)" and q2: "noCheck mid2 (?s3, cs2)"
    by (simp_all add: unchecked_append)
  from idle_run[OF idle q1 r2] have 2: "idle cs2" "objects s2 = []"
    by (simp_all add: flushLoop_all)
  from idle_run[OF 2(1) q2 r4] 2 have 4: "idle cs4" "objects s4 = []" "shields s4 = []"
    by (simp_all add: flushLoop_all)
  then have "stopped (s4\<lparr>workerRunning := 0\<rparr>, cs4)" by simp
  from stopped_run[OF this a] r2 r4 show ?thesis
    by (simp add: run_append del: stopped.simps)
qed

section \<open>The claims about a call run alone and about the worker\<close>

text \<open>
  C1. When the key is absent from the Object Store and the invocation of the producer
  returns an error, \<^verbatim>\<open>Fetch\<close> returns a nil entry, \<open>hit = false\<close> and that same error,
  and the Object Store is what it was. The failure is not cached: the next \<^verbatim>\<open>Fetch\<close>
  for the key invokes its producer again, so that the log of invocations holds both.
  (That the producer was invoked says that the worker runs and that the call got the
  shield's mutex.)
\<close>

theorem Fetch_producer_error:
  assumes "workerRunning s \<noteq> 0" and "shieldFree key s"
    and "map_of (objects s) key = None"
    and "env s = (log, w)"
    and "fetchFunc w = ((ret, Some e), w1)"
    and "fetchFunc' w1 = (r2, w2)"
  shows "\<exists>s1 res2 s2.
           Fetch key ttl (recording fetchFunc) now1 now2 s = Some ((None, False, Some e), s1)
         \<and> objects s1 = objects s
         \<and> invocations s1 = log @ [(ret, Some e)]
         \<and> Fetch key ttl' (recording fetchFunc') now3 now4 s1 = Some (res2, s2)
         \<and> invocations s2 = log @ [(ret, Some e), r2]"
proof -
  let ?s1 = "(snd (getShield key now1 s))\<lparr>env := (log @ [(ret, Some e)], w1)\<rparr>"
  have r1: "recording fetchFunc (env s) = ((ret, Some e), (log @ [(ret, Some e)], w1))"
    using assms(4,5) by (simp add: recording_apply)
  have F1: "Fetch key ttl (recording fetchFunc) now1 now2 s = Some ((None, False, Some e), ?s1)"
    using Fetch_error[where fetchFunc = "recording fetchFunc", OF assms(1,2,3) r1] .
  have o1: "objects ?s1 = objects s" by (simp add: getShield_frame)
  have i1: "invocations ?s1 = log @ [(ret, Some e)]" by (simp add: invocations_def)
  have run1: "workerRunning ?s1 \<noteq> 0" using assms(1) by (simp add: getShield_frame)
  have free1: "shieldFree key ?s1" using assms(2) by (simp add: shieldFree_after)
  have abs1: "map_of (objects ?s1) key = None" using assms(3) o1 by simp
  have r2: "recording fetchFunc' (env ?s1) = (r2, (log @ [(ret, Some e), r2], w2))"
    using assms(6) by (simp add: recording_apply)
  obtain res2 s2 where
    F2: "Fetch key ttl' (recording fetchFunc') now3 now4 ?s1 = Some (res2, s2)"
    using Fetch_returns[OF free1] by blast
  have "snd (recording fetchFunc' (env ?s1)) = env s2"
    using Fetch_returned[OF F2] run1 abs1
    by (elim disjE exE conjE) simp_all
  then have "env s2 = (log @ [(ret, Some e), r2], w2)"
    unfolding r2 by simp
  then have i2: "invocations s2 = log @ [(ret, Some e), r2]"
    by (simp add: invocations_def)
  from F1 o1 i1 F2 i2 show ?thesis by blast
qed

theorem Fetch_producer_error_witness:
  "workerRunning (testState 2) \<noteq> 0
   \<and> shieldFree ''test'' (testState 2)
   \<and> map_of (objects (testState 2)) ''test'' = None
   \<and> testFetchFunc 2 = ((0, Some (Errorf ''error'')), 3)
   \<and> testFetchFunc 3 = ((0, Some (Errorf ''error'')), 4)
   \<and> (\<exists>s1 res2 s2.
         Fetch ''test'' (Second * 2) (recording testFetchFunc) 0 1 (testState 2) =
           Some ((None, False, Some (Errorf ''error'')), s1)
       \<and> objects s1 = objects (testState 2)
       \<and> invocations s1 = [(0, Some (Errorf ''error''))]
       \<and> Fetch ''test'' (Second * 2) (recording testFetchFunc) 2 3 s1 = Some (res2, s2)
       \<and> invocations s2 = [(0, Some (Errorf ''error'')), (0, Some (Errorf ''error''))])"
proof -
  have h1: "workerRunning (testState 2) \<noteq> 0"
    and h2: "shieldFree ''test'' (testState 2)"
    and h3: "map_of (objects (testState 2)) ''test'' = None"
    and h4: "env (testState 2) = ([], 2)"
    by (simp_all add: testState_fields shieldFree_def)
  have h5: "testFetchFunc 2 = ((0, Some (Errorf ''error'')), 3)"
    and h6: "testFetchFunc 3 = ((0, Some (Errorf ''error'')), 4)"
    by (simp_all add: testFetchFunc_def)
  from Fetch_producer_error[where fetchFunc = testFetchFunc and fetchFunc' = testFetchFunc
      and ttl = "Second * 2" and ttl' = "Second * 2" and ?now1.0 = 0 and ?now2.0 = 1
      and ?now3.0 = 2 and ?now4.0 = 3, OF h1 h2 h3 h4 h5 h6]
    h1 h2 h3 h5 h6
  show ?thesis by simp
qed

text \<open>
  C2. When the worker is not running (the flag is 0: the worker was never started, or
  it has returned after the cancellation), \<^verbatim>\<open>Fetch\<close> returns a nil entry,
  \<open>hit = false\<close> and \<^verbatim>\<open>ErrWorkerNotRunning\<close>, and the whole state is what it was:
  no store was touched and the producer, which could only have changed the caller's
  environment, was not invoked.
\<close>

theorem Fetch_worker_not_running:
  "(workerRunning s = 0 \<longrightarrow>
      Fetch key ttl fetchFunc now1 now2 s = Some ((None, False, Some ErrWorkerNotRunning), s))
   \<and> Fetch key ttl fetchFunc now1 now2 (NewShieldedCache gc w) =
       Some ((None, False, Some ErrWorkerNotRunning), NewShieldedCache gc w)
   \<and> (Done \<in> set evs \<longrightarrow>
       Fetch key ttl fetchFunc now1 now2 (fst (runWorker evs s)) =
         Some ((None, False, Some ErrWorkerNotRunning), fst (runWorker evs s)))"
  using runWorker_Done[of evs s]
  by (simp add: Fetch_def NewShieldedCache_def)

theorem Fetch_worker_not_running_witness:
  "workerRunning (flush (testState 0)) = 0
   \<and> Done \<in> set [After (\<lambda>k. 5) (\<lambda>k. 6), Done]
   \<and> Fetch ''test'' (Second * 2) (recording testFetchFunc) 0 1 (flush (testState 0)) =
       Some ((None, False, Some ErrWorkerNotRunning), flush (testState 0))
   \<and> Fetch ''test'' (Second * 2) (recording testFetchFunc) 0 1
         (fst (runWorker [After (\<lambda>k. 5) (\<lambda>k. 6), Done] (testState 0))) =
       Some ((None, False, Some ErrWorkerNotRunning),
             fst (runWorker [After (\<lambda>k. 5) (\<lambda>k. 6), Done] (testState 0)))"
proof -
  have h1: "workerRunning (flush (testState 0)) = 0" by (simp add: flush_fields)
  have h2: "Done \<in> set [After (\<lambda>k. 5) (\<lambda>k. 6), Done]" by simp
  from Fetch_worker_not_running[where s = "flush (testState 0)" and key = "''test''"
      and ttl = "Second * 2" and fetchFunc = "recording testFetchFunc" and ?now1.0 = 0
      and ?now2.0 = 1 and evs = "[]"]
    Fetch_worker_not_running[where s = "testState 0" and key = "''test''"
      and ttl = "Second * 2" and fetchFunc = "recording testFetchFunc" and ?now1.0 = 0
      and ?now2.0 = 1 and evs = "[After (\<lambda>k. 5) (\<lambda>k. 6), Done]"]
    h1 h2
  show ?thesis by blast
qed

text \<open>
  C3. When the worker runs and the key is present in the Object Store, \<^verbatim>\<open>Fetch\<close>
  returns the stored entry with \<open>hit = true\<close> and a nil error, the Object Store and
  the caller's environment are what they were (the producer was not invoked), and
  nothing in this depends on the entry's \<open>Expires\<close> or on the clock: an entry long
  expired is returned all the same.
\<close>

theorem Fetch_present_is_hit:
  assumes "workerRunning s \<noteq> 0" and "shieldFree key s"
    and "map_of (objects s) key = Some res"
  shows "\<exists>s'. Fetch key ttl fetchFunc now1 now2 s = Some ((Some res, True, None), s')
            \<and> objects s' = objects s \<and> env s' = env s"
  using Fetch_hit[OF assms] by (simp add: getShield_frame)

theorem Fetch_present_is_hit_witness:
  "workerRunning ((testState 1)\<lparr>objects := [(''test'', \<lparr>Expires = 5, Data = 1\<rparr>)]\<rparr>) \<noteq> 0
   \<and> shieldFree ''test'' ((testState 1)\<lparr>objects := [(''test'', \<lparr>Expires = 5, Data = 1\<rparr>)]\<rparr>)
   \<and> map_of (objects ((testState 1)\<lparr>objects := [(''test'', \<lparr>Expires = 5, Data = 1\<rparr>)]\<rparr>))
         ''test'' = Some \<lparr>Expires = 5, Data = 1\<rparr>
   \<and> Expires \<lparr>Expires = 5, Data = 1 :: 64 word\<rparr> < 1000
   \<and> (\<exists>s'. Fetch ''test'' (Second * 2) (recording testFetchFunc) 1000 1001
               ((testState 1)\<lparr>objects := [(''test'', \<lparr>Expires = 5, Data = 1\<rparr>)]\<rparr>) =
             Some ((Some \<lparr>Expires = 5, Data = 1\<rparr>, True, None), s')
           \<and> objects s' = [(''test'', \<lparr>Expires = 5, Data = 1\<rparr>)]
           \<and> env s' = ([], 1))"
proof -
  let ?s = "(testState 1)\<lparr>objects := [(''test'', \<lparr>Expires = 5, Data = 1\<rparr>)]\<rparr>"
  have h1: "workerRunning ?s \<noteq> 0"
    and h2: "shieldFree ''test'' ?s"
    and h3: "map_of (objects ?s) ''test'' = Some \<lparr>Expires = 5, Data = 1\<rparr>"
    by (simp_all add: testState_fields shieldFree_def)
  from Fetch_present_is_hit[where fetchFunc = "recording testFetchFunc" and ttl = "Second * 2"
      and ?now1.0 = 1000 and ?now2.0 = 1001, OF h1 h2 h3] h1 h2 h3
  show ?thesis by (simp add: testState_fields)
qed

text \<open>
  C4. When the worker runs, the key is absent from the Object Store and the invocation
  of the producer returns the value \<open>v\<close> with a nil error, \<^verbatim>\<open>Fetch\<close> builds the entry
  with \<open>Expires = now + ttl\<close> (the clock read after the producer returned) and
  \<open>Data = v\<close>, stores it under the key as one new binding, every other binding being
  what it was, and returns it with \<open>hit = false\<close> and a nil error.
\<close>

theorem Fetch_miss_stores:
  assumes "workerRunning s \<noteq> 0" and "shieldFree key s"
    and "map_of (objects s) key = None"
    and "fetchFunc (env s) = ((v, None), w)"
  shows "\<exists>s'. Fetch key ttl fetchFunc now1 now2 s =
                 Some ((Some \<lparr>Expires = now2 + ttl, Data = v\<rparr>, False, None), s')
            \<and> objects s' = objects s @ [(key, \<lparr>Expires = now2 + ttl, Data = v\<rparr>)]
            \<and> map_of (objects s') = (map_of (objects s))(key \<mapsto> \<lparr>Expires = now2 + ttl, Data = v\<rparr>)"
proof -
  let ?res = "\<lparr>Expires = now2 + ttl, Data = v\<rparr>"
  let ?s' = "(snd (getShield key now1 s))\<lparr>env := w, objects := AList.update key ?res (objects s)\<rparr>"
  have "Fetch key ttl fetchFunc now1 now2 s = Some ((Some ?res, False, None), ?s')"
    using Fetch_miss[where fetchFunc = fetchFunc, OF assms] .
  moreover have "objects ?s' = objects s @ [(key, ?res)]"
    using assms(3) by (simp add: update_absent)
  moreover have "map_of (objects ?s') = (map_of (objects s))(key \<mapsto> ?res)"
    by (simp add: AList.update_conv')
  ultimately show ?thesis by blast
qed

theorem Fetch_miss_stores_witness:
  "workerRunning (testState 0) \<noteq> 0
   \<and> shieldFree ''test'' (testState 0)
   \<and> map_of (objects (testState 0)) ''test'' = None
   \<and> recording testFetchFunc (env (testState 0)) = ((1, None), ([(1, None)], 1))
   \<and> (\<exists>s'. Fetch ''test'' 2000000000 (recording testFetchFunc) 10 20 (testState 0) =
               Some ((Some \<lparr>Expires = 2000000020, Data = 1\<rparr>, False, None), s')
           \<and> objects s' = [(''test'', \<lparr>Expires = 2000000020, Data = 1\<rparr>)]
           \<and> map_of (objects s') = [''test'' \<mapsto> \<lparr>Expires = 2000000020, Data = 1\<rparr>])"
proof -
  have h1: "workerRunning (testState 0) \<noteq> 0"
    and h2: "shieldFree ''test'' (testState 0)"
    and h3: "map_of (objects (testState 0)) ''test'' = None"
    by (simp_all add: testState_fields shieldFree_def)
  have h4: "recording testFetchFunc (env (testState 0)) = ((1, None), ([(1, None)], 1))"
    by (simp add: testState_fields recording_def testFetchFunc_def)
  from Fetch_miss_stores[where fetchFunc = "recording testFetchFunc" and ttl = 2000000000
      and ?now1.0 = 10 and ?now2.0 = 20, OF h1 h2 h3 h4] h1 h2 h3 h4
  show ?thesis by (simp add: testState_fields)
qed

text \<open>
  C5. For a key absent from the Object Store and a producer that succeeds, the first
  \<^verbatim>\<open>Fetch\<close> returns \<open>hit = false\<close> with the producer's value; a second \<^verbatim>\<open>Fetch\<close> for
  the key right after it returns \<open>hit = true\<close> with the same entry, and the log of
  invocations holds the first invocation only. (The shield registry may or may not
  hold the key.) And any call of \<^verbatim>\<open>Fetch\<close> that returns has invoked its producer
  not at all or once.
\<close>

theorem Fetch_miss_then_hit:
  "(workerRunning s \<noteq> 0 \<and> shieldFree key s \<and> map_of (objects s) key = None
      \<and> env s = (log, w) \<and> fetchFunc w = ((v, None), w1)
    \<longrightarrow> (\<exists>res1 s1 s2.
           Fetch key ttl (recording fetchFunc) now1 now2 s = Some ((Some res1, False, None), s1)
         \<and> Data res1 = v
         \<and> Fetch key ttl' (recording fetchFunc) now3 now4 s1 = Some ((Some res1, True, None), s2)
         \<and> invocations s2 = log @ [(v, None)]))
   \<and> (Fetch key ttl (recording fetchFunc) now1 now2 s = Some (r, s')
    \<longrightarrow> invocations s' = invocations s \<or> (\<exists>x. invocations s' = invocations s @ [x]))"
proof (intro conjI impI)
  assume a: "workerRunning s \<noteq> 0 \<and> shieldFree key s \<and> map_of (objects s) key = None
      \<and> env s = (log, w) \<and> fetchFunc w = ((v, None), w1)"
  let ?res = "\<lparr>Expires = now2 + ttl, Data = v\<rparr>"
  let ?s1 = "(snd (getShield key now1 s))
               \<lparr>env := (log @ [(v, None)], w1), objects := AList.update key ?res (objects s)\<rparr>"
  have rec: "recording fetchFunc (env s) = ((v, None), (log @ [(v, None)], w1))"
    using a by (simp add: recording_apply)
  have F1: "Fetch key ttl (recording fetchFunc) now1 now2 s = Some ((Some ?res, False, None), ?s1)"
    using Fetch_miss[where fetchFunc = "recording fetchFunc"] a rec by blast
  have run1: "workerRunning ?s1 \<noteq> 0" using a by (simp add: getShield_frame)
  have free1: "shieldFree key ?s1" using a by (simp add: shieldFree_after)
  have pres1: "map_of (objects ?s1) key = Some ?res" by (simp add: AList.update_conv')
  have F2: "Fetch key ttl' (recording fetchFunc) now3 now4 ?s1 =
              Some ((Some ?res, True, None), snd (getShield key now3 ?s1))"
    using Fetch_hit[OF run1 free1 pres1] .
  have "invocations (snd (getShield key now3 ?s1)) = log @ [(v, None)]"
    by (simp add: invocations_def getShield_frame)
  with F1 F2 show "\<exists>res1 s1 s2.
           Fetch key ttl (recording fetchFunc) now1 now2 s = Some ((Some res1, False, None), s1)
         \<and> Data res1 = v
         \<and> Fetch key ttl' (recording fetchFunc) now3 now4 s1 = Some ((Some res1, True, None), s2)
         \<and> invocations s2 = log @ [(v, None)]"
    by (intro exI[of _ ?res] exI[of _ ?s1] exI[of _ "snd (getShield key now3 ?s1)"]) simp
next
  assume "Fetch key ttl (recording fetchFunc) now1 now2 s = Some (r, s')"
  then show "invocations s' = invocations s \<or> (\<exists>x. invocations s' = invocations s @ [x])"
    by (rule Fetch_invocations)
qed

theorem Fetch_miss_then_hit_witness:
  "workerRunning (testState 0) \<noteq> 0 \<and> shieldFree ''test'' (testState 0)
   \<and> map_of (objects (testState 0)) ''test'' = None
   \<and> env (testState 0) = ([], 0) \<and> testFetchFunc 0 = ((1, None), 1)
   \<and> (\<exists>res1 s1 s2.
         Fetch ''test'' (Second * 2) (recording testFetchFunc) 0 1 (testState 0) =
           Some ((Some res1, False, None), s1)
       \<and> Data res1 = 1
       \<and> Fetch ''test'' (Second * 2) (recording testFetchFunc) 2 3 s1 =
           Some ((Some res1, True, None), s2)
       \<and> invocations s2 = [(1, None)])
   \<and> (\<exists>r s'.
         Fetch ''test'' (Second * 2) (recording testFetchFunc) 0 1 (testState 0) = Some (r, s')
       \<and> (invocations s' = invocations (testState 0)
            \<or> (\<exists>x. invocations s' = invocations (testState 0) @ [x])))"
proof -
  have h: "workerRunning (testState 0) \<noteq> 0 \<and> shieldFree ''test'' (testState 0)
      \<and> map_of (objects (testState 0)) ''test'' = None
      \<and> env (testState 0) = ([], 0) \<and> testFetchFunc 0 = ((1, None), 1)"
    by (simp add: testState_fields shieldFree_def testFetchFunc_def)
  then have "shieldFree ''test'' (testState 0)" by simp
  then obtain r s' where
    F: "Fetch ''test'' (Second * 2) (recording testFetchFunc) 0 1 (testState 0) = Some (r, s')"
    using Fetch_returns by blast
  from Fetch_miss_then_hit[where s = "testState 0" and key = "''test''" and log = "[]"
      and w = 0 and fetchFunc = testFetchFunc and v = 1 and ?w1.0 = 1 and ttl = "Second * 2"
      and ttl' = "Second * 2" and ?now1.0 = 0 and ?now2.0 = 1 and ?now3.0 = 2 and ?now4.0 = 3
      and r = r and s' = s']
    h F
  show ?thesis by (simp del: ex_simps) blast
qed



text \<open>
  C7, as stated, fails. A call of \<^verbatim>\<open>Fetch\<close> is in its producer when the context is
  done. The worker empties both maps, stores 0 in the flag and returns: \<^verbatim>\<open>Usage\<close>
  reports \<open>(0, 0)\<close> then. The producer returns after that and the call stores its entry:
  \<^verbatim>\<open>Usage\<close> called afterwards reports \<open>(1, 0)\<close>, with the worker gone. And a call that
  begins while the worker is between its two flushes and the store of the flag passes
  the check of line 52, registers a shield and stores an entry: \<^verbatim>\<open>Usage\<close> reports
  \<open>(1, 1)\<close>.
\<close>

theorem cancellation_counterexample:
  "map callAt (snd (run (take 8 lateCaller) (testState 0, []))) =
       [InCall \<lparr>lastAccessed = 10, mu = 0\<rparr>]
   \<and> workerRunning (fst (run (take 8 lateCaller) (testState 0, []))) = 0
   \<and> Usage (fst (run (take 8 lateCaller) (testState 0, []))) = (0, 0)
   \<and> map callAt (snd (run lateCaller (testState 0, []))) =
       [Returned (Some \<lparr>Expires = 50000020, Data = 1\<rparr>, False, None)]
   \<and> workerRunning (fst (run lateCaller (testState 0, []))) = 0
   \<and> Usage (fst (run lateCaller (testState 0, []))) = (1, 0)
   \<and> map callAt (snd (run lateStart (testState 0, []))) =
       [Returned (Some \<lparr>Expires = 50000020, Data = 1\<rparr>, False, None)]
   \<and> workerRunning (fst (run lateStart (testState 0, []))) = 0
   \<and> Usage (fst (run lateStart (testState 0, []))) = (1, 1)"
  by (simp add: schedule_defs Usage_def)

text \<open>
  C7, amended. When the worker is woken by the done context, it empties the Object
  Store and the Shield Registry whatever their entries, sets the flag from running to
  0 and returns; \<^verbatim>\<open>Usage\<close> on the state it leaves is \<open>(0, 0)\<close>. Until then the worker has
  not returned and the flag is what it was. And among the goroutines of the process:
  when no call of \<^verbatim>\<open>Fetch\<close> was between its check of line 52 and its return as the
  worker began to empty the maps, no call of \<^verbatim>\<open>Fetch\<close> passed that check before the
  worker stored 0 in the flag, and \<^verbatim>\<open>StartWorker\<close> has not been called since, then at
  every later moment both maps are empty, the flag is 0 and \<^verbatim>\<open>Usage\<close> reports
  \<open>(0, 0)\<close>, whatever else was called in between and afterwards, calls of \<^verbatim>\<open>Fetch\<close>
  included.
\<close>

theorem cancellation_flushes:
  "(Done \<in> set evs \<longrightarrow>
      snd (runWorker evs s) \<and> objects (fst (runWorker evs s)) = []
      \<and> shields (fst (runWorker evs s)) = [] \<and> workerRunning (fst (runWorker evs s)) = 0
      \<and> Usage (fst (runWorker evs s)) = (0, 0))
   \<and> (Done \<notin> set evs \<longrightarrow>
      \<not> snd (runWorker evs s) \<and> workerRunning (fst (runWorker evs s)) = workerRunning s)
   \<and> (idle cs \<and> noCheck (FlushObjects # mid1 @ FlushShields # mid2) (t, cs)
      \<and> (\<forall>e \<in> set after. \<not> isStart e)
      \<and> run (FlushObjects # mid1 @ FlushShields # mid2 @ StoreStopped # after) (t, cs) = (t', cs')
    \<longrightarrow> objects t' = [] \<and> shields t' = [] \<and> workerRunning t' = 0 \<and> Usage t' = (0, 0))"
proof -
  have 1: "Done \<in> set evs \<longrightarrow>
      snd (runWorker evs s) \<and> objects (fst (runWorker evs s)) = []
      \<and> shields (fst (runWorker evs s)) = [] \<and> workerRunning (fst (runWorker evs s)) = 0
      \<and> Usage (fst (runWorker evs s)) = (0, 0)"
    using runWorker_Done[of evs s] by (simp add: Usage_def)
  have 2: "Done \<notin> set evs \<longrightarrow>
      \<not> snd (runWorker evs s) \<and> workerRunning (fst (runWorker evs s)) = workerRunning s"
    using runWorker_waiting[of evs s] by simp
  have 3: "idle cs \<and> noCheck (FlushObjects # mid1 @ FlushShields # mid2) (t, cs)
      \<and> (\<forall>e \<in> set after. \<not> isStart e)
      \<and> run (FlushObjects # mid1 @ FlushShields # mid2 @ StoreStopped # after) (t, cs) = (t', cs')
    \<longrightarrow> objects t' = [] \<and> shields t' = [] \<and> workerRunning t' = 0 \<and> Usage t' = (0, 0)"
  proof
    assume a: "idle cs \<and> noCheck (FlushObjects # mid1 @ FlushShields # mid2) (t, cs)
      \<and> (\<forall>e \<in> set after. \<not> isStart e)
      \<and> run (FlushObjects # mid1 @ FlushShields # mid2 @ StoreStopped # after) (t, cs) = (t', cs')"
    then have "stopped (t', cs')"
      using flush_among_events[of cs mid1 mid2 t after]
      by (simp del: stopped.simps run.simps noCheck.simps)
    then show "objects t' = [] \<and> shields t' = [] \<and> workerRunning t' = 0 \<and> Usage t' = (0, 0)"
      by (simp add: Usage_def)
  qed
  from 1 2 3 show ?thesis by (intro conjI)
qed

theorem cancellation_flushes_witness:
  "Done \<in> set [After (\<lambda>k. 0) (\<lambda>k. 0), Done]
   \<and> Done \<notin> set [After (\<lambda>k. 0) (\<lambda>k. 0)]
   \<and> workerRunning ((testState 0)\<lparr>objects := [(''a'', \<lparr>Expires = 5, Data = 1\<rparr>)],
                        shields := [(''a'', \<lparr>lastAccessed = 0, mu = 0\<rparr>)]\<rparr>) = 1
   \<and> snd (runWorker [After (\<lambda>k. 0) (\<lambda>k. 0), Done]
         ((testState 0)\<lparr>objects := [(''a'', \<lparr>Expires = 5, Data = 1\<rparr>)],
                        shields := [(''a'', \<lparr>lastAccessed = 0, mu = 0\<rparr>)]\<rparr>))
   \<and> workerRunning (fst (runWorker [After (\<lambda>k. 0) (\<lambda>k. 0), Done]
         ((testState 0)\<lparr>objects := [(''a'', \<lparr>Expires = 5, Data = 1\<rparr>)],
                        shields := [(''a'', \<lparr>lastAccessed = 0, mu = 0\<rparr>)]\<rparr>))) = 0
   \<and> Usage (fst (runWorker [After (\<lambda>k. 0) (\<lambda>k. 0), Done]
         ((testState 0)\<lparr>objects := [(''a'', \<lparr>Expires = 5, Data = 1\<rparr>)],
                        shields := [(''a'', \<lparr>lastAccessed = 0, mu = 0\<rparr>)]\<rparr>))) = (0, 0)
   \<and> \<not> snd (runWorker [After (\<lambda>k. 0) (\<lambda>k. 0)]
         ((testState 0)\<lparr>objects := [(''a'', \<lparr>Expires = 5, Data = 1\<rparr>)],
                        shields := [(''a'', \<lparr>lastAccessed = 0, mu = 0\<rparr>)]\<rparr>))
   \<and> idle [testCall\<lparr>callAt := Returned (Some \<lparr>Expires = 5, Data = 1\<rparr>, False, None)\<rparr>]
   \<and> noCheck (FlushObjects # [Delete ''b'', Go ''test'' (Millisecond * 50) (recording testFetchFunc)]
                 @ FlushShields # [Step 0 0, Start])
         ((testState 0)\<lparr>objects := [(''a'', \<lparr>Expires = 5, Data = 1\<rparr>)],
                        shields := [(''a'', \<lparr>lastAccessed = 0, mu = 0\<rparr>)]\<rparr>,
          [testCall\<lparr>callAt := Returned (Some \<lparr>Expires = 5, Data = 1\<rparr>, False, None)\<rparr>])
   \<and> map isStart
        [Step 1 0, Go ''test'' (Millisecond * 50) (recording testFetchFunc),
         Step 2 0 :: (64 word, (64 word \<times> error option) list \<times> 64 word) event]
        = [False, False, False]
   \<and> Usage (fst (run (FlushObjects
                       # [Delete ''b'', Go ''test'' (Millisecond * 50) (recording testFetchFunc)]
                       @ FlushShields # [Step 0 0, Start] @ StoreStopped
                       # [Step 1 0, Go ''test'' (Millisecond * 50) (recording testFetchFunc),
                          Step 2 0])
         ((testState 0)\<lparr>objects := [(''a'', \<lparr>Expires = 5, Data = 1\<rparr>)],
                        shields := [(''a'', \<lparr>lastAccessed = 0, mu = 0\<rparr>)]\<rparr>,
          [testCall\<lparr>callAt := Returned (Some \<lparr>Expires = 5, Data = 1\<rparr>, False, None)\<rparr>]))) = (0, 0)"
proof -
  let ?s = "(testState 0)\<lparr>objects := [(''a'', \<lparr>Expires = 5, Data = 1\<rparr>)],
                        shields := [(''a'', \<lparr>lastAccessed = 0, mu = 0\<rparr>)]\<rparr>"
  let ?cs = "[testCall\<lparr>callAt := Returned (Some \<lparr>Expires = 5, Data = 1\<rparr>, False, None)\<rparr>]"
  let ?mid1 = "[Delete ''b'', Go ''test'' (Millisecond * 50) (recording testFetchFunc)]"
  let ?mid2 = "[Step 0 0, Start] :: (64 word, (64 word \<times> error option) list \<times> 64 word) event list"
  let ?after = "[Step 1 0, Go ''test'' (Millisecond * 50) (recording testFetchFunc), Step 2 0]"
  let ?r = "run (FlushObjects # ?mid1 @ FlushShields # ?mid2 @ StoreStopped # ?after) (?s, ?cs)"
  have h1: "Done \<in> set [After (\<lambda>k. 0) (\<lambda>k. 0), Done]"
    and h2: "Done \<notin> set [After (\<lambda>k. 0) (\<lambda>k. 0)]"
    and h3: "workerRunning ?s = 1"
    by (simp_all add: testState_fields)
  have h4: "idle ?cs" by (simp add: idle_def)
  have h5: "noCheck (FlushObjects # ?mid1 @ FlushShields # ?mid2) (?s, ?cs)"
    by (simp add: testCall_def callStep_def StartWorker_def)
  have h7: "\<forall>e \<in> set ?after. \<not> isStart e" by simp
  have g: "map isStart ?after = [False, False, False]" by simp
  have a: "snd (runWorker [After (\<lambda>k. 0) (\<lambda>k. 0), Done] ?s)
      \<and> workerRunning (fst (runWorker [After (\<lambda>k. 0) (\<lambda>k. 0), Done] ?s)) = 0
      \<and> Usage (fst (runWorker [After (\<lambda>k. 0) (\<lambda>k. 0), Done] ?s)) = (0, 0)"
    using cancellation_flushes[of "[After (\<lambda>k. 0) (\<lambda>k. 0), Done]" ?s, THEN conjunct1] h1
    by blast
  have b: "\<not> snd (runWorker [After (\<lambda>k. 0) (\<lambda>k. 0)] ?s)"
    using cancellation_flushes[of "[After (\<lambda>k. 0) (\<lambda>k. 0)]" ?s, THEN conjunct2, THEN conjunct1] h2
    by blast
  have c: "Usage (fst ?r) = (0, 0)"
    using cancellation_flushes[where cs = ?cs and ?mid1.0 = ?mid1 and ?mid2.0 = ?mid2
        and after = ?after and t = ?s and t' = "fst ?r" and cs' = "snd ?r", THEN conjunct2,
        THEN conjunct2] h4 h5 h7
    by (simp del: run.simps noCheck.simps)
  from h1 h2 h3 a b c g h4 h5 show ?thesis
    by (simp del: run.simps runWorker.simps noCheck.simps)
qed

text \<open>
  C8. That every entry of the Object Store carries a value which an invocation of a
  producer returned with a nil error (no value returned beside an error is stored)
  holds of a new cache and is kept by \<^verbatim>\<open>Fetch\<close>, \<^verbatim>\<open>StartWorker\<close>, the worker's sweep,
  the worker's flush and \<^verbatim>\<open>DeleteObject\<close>.
\<close>

theorem store_holds_only_produced:
  assumes "allProduced s"
  shows "(\<forall>r s'. Fetch key ttl (recording fetchFunc) now1 now2 s = Some (r, s') \<longrightarrow> allProduced s')
       \<and> allProduced (snd (StartWorker s))
       \<and> allProduced (sweep nowO nowS s)
       \<and> allProduced (flush s)
       \<and> allProduced (DeleteObject key' s)
       \<and> allProduced (NewShieldedCache gc ([], w))"
proof (intro conjI allI impI)
  fix r s' assume "Fetch key ttl (recording fetchFunc) now1 now2 s = Some (r, s')"
  with assms show "allProduced s'" by (rule Fetch_allProduced)
next
  show "allProduced (snd (StartWorker s))"
    using assms by (simp add: StartWorker_def allProduced_iff invocations_def)
next
  show "allProduced (sweep nowO nowS s)"
    using assms set_gcObjectsLoop[of nowO "objects s" "objects s"]
    by (auto simp: allProduced_iff invocations_def sweep_objects sweep_fields)
next
  show "allProduced (flush s)"
    by (simp add: allProduced_iff flush_fields)
next
  show "allProduced (DeleteObject key' s)"
    using assms by (auto simp: allProduced_iff invocations_def DeleteObject_def AList.delete_eq)
next
  show "allProduced (NewShieldedCache gc ([], w))"
    by (simp add: allProduced_iff NewShieldedCache_def)
qed

theorem store_holds_only_produced_witness:
  "allProduced ((testState 1)\<lparr>objects := [(''test'', \<lparr>Expires = 5, Data = 1\<rparr>)],
                               env := ([(1, None)], 1)\<rparr>)
   \<and> (\<exists>r s'. Fetch ''k'' (Second * 2) (recording testFetchFunc) 0 1
         ((testState 1)\<lparr>objects := [(''test'', \<lparr>Expires = 5, Data = 1\<rparr>)],
                         env := ([(1, None)], 1)\<rparr>) = Some (r, s') \<and> allProduced s')
   \<and> allProduced (DeleteObject ''test''
         ((testState 1)\<lparr>objects := [(''test'', \<lparr>Expires = 5, Data = 1\<rparr>)],
                         env := ([(1, None)], 1)\<rparr>))"
proof -
  let ?s = "(testState 1)\<lparr>objects := [(''test'', \<lparr>Expires = 5, Data = 1\<rparr>)],
                               env := ([(1, None)], 1)\<rparr>"
  have h: "allProduced ?s" by (simp add: allProduced_def invocations_def)
  have "shieldFree ''k'' ?s" by (simp add: shieldFree_def testState_fields)
  then obtain r s' where
    F: "Fetch ''k'' (Second * 2) (recording testFetchFunc) 0 1 ?s = Some (r, s')"
    using Fetch_returns by blast
  from store_holds_only_produced[where key = "''k''" and ttl = "Second * 2"
      and fetchFunc = testFetchFunc and ?now1.0 = 0 and ?now2.0 = 1 and nowO = "\<lambda>k. 0"
      and nowS = "\<lambda>k. 0" and key' = "''test''" and gc = 0 and w = 0, OF h] F h
  show ?thesis by blast
qed

text \<open>
  C10. The three results of a \<^verbatim>\<open>Fetch\<close> that returns fit together: \<open>hit\<close> comes with an
  entry and a nil error; an error comes with a nil entry and \<open>hit = false\<close>; a nil
  error without \<open>hit\<close> comes with an entry; an entry and an error never come together.
\<close>

theorem Fetch_results_consistent:
  assumes "Fetch key ttl fetchFunc now1 now2 s = Some ((entry, hit, err), s')"
  shows "(hit \<longrightarrow> entry \<noteq> None \<and> err = None)
       \<and> (err \<noteq> None \<longrightarrow> entry = None \<and> \<not> hit)
       \<and> (err = None \<and> \<not> hit \<longrightarrow> entry \<noteq> None)
       \<and> \<not> (entry \<noteq> None \<and> err \<noteq> None)"
  using Fetch_returned[OF assms] by (elim disjE exE conjE) simp_all

theorem Fetch_results_consistent_witness:
  "\<exists>entry hit err s'.
     Fetch ''test'' 2000000000 (recording testFetchFunc) 10 20 (testState 2) =
       Some ((entry, hit, err), s')
     \<and> err = Some (Errorf ''error'') \<and> entry = None \<and> \<not> hit"
proof -
  have r: "recording testFetchFunc (env (testState 2)) =
             ((0, Some (Errorf ''error'')), ([(0, Some (Errorf ''error''))], 3))"
    by (simp add: testState_fields recording_def testFetchFunc_def)
  have F: "Fetch ''test'' 2000000000 (recording testFetchFunc) 10 20 (testState 2) =
     Some ((None, False, Some (Errorf ''error'')),
           (snd (getShield ''test'' 10 (testState 2)))\<lparr>env := ([(0, Some (Errorf ''error''))], 3)\<rparr>)"
    using Fetch_error[where fetchFunc = "recording testFetchFunc" and s = "testState 2"
        and key = "''test''" and ttl = 2000000000 and ?now1.0 = 10 and ?now2.0 = 20, OF _ _ _ r]
    by (simp add: testState_fields shieldFree_def)
  from Fetch_results_consistent[OF F] F show ?thesis by blast
qed

section \<open>The claim about concurrent calls\<close>




end
